theory Spec2Isabelle
  imports Main "HOL-Library.Multiset"
begin

section \<open>The parsed kinematic tree\<close>

text \<open>
  The module \<^verbatim>\<open>sim_web_visualizer/parser/urdf.py\<close> consumes the tree that the URDF parser
  returns and the objects that \<^verbatim>\<open>trimesh\<close> loads. Numeric payloads (4x4 poses, scale
  vectors, RGBA arrays, radii) are values of one carrier type \<open>'a\<close>; objects of the mesh library
  are values of a carrier type \<open>'g\<close>. No property below depends on how \<^verbatim>\<open>numpy\<close> computes
  a product: the operations on \<open>'a\<close> are the fields of an environment record, so every theorem
  holds for the floating-point product as for an exact one.
\<close>

type_synonym addr = nat

text \<open>
  The exceptions that leave \<^verbatim>\<open>load_urdf_with_yourdfpy\<close>; \<open>LibraryError\<close> stands for whatever
  the mesh library raises itself (an unreadable file, a frame missing from a scene graph).
\<close>

datatype error =
  NotImplementedError | KeyError | AssertionError | AttributeError | ValueError | LibraryError

text \<open>
  A joint's origin is \<^verbatim>\<open>None\<close> when the description gives the joint no origin element. The
  type is only ever compared with \<^verbatim>\<open>"fixed"\<close>, so a joint without a type is a joint of any
  other type.
\<close>

record 'a joint =
  parent :: string
  child :: string
  jtype :: string
  origin :: "'a option"

record 'a material =
  material_name :: "string option"
  color :: "'a option"

record 'a mesh =
  filename :: string
  scale :: "'a option"

record 'a cylinder =
  cyl_radius :: 'a
  cyl_length :: 'a

record 'a geometry =
  mesh :: "'a mesh option"
  sphere :: "'a option"
  box :: "'a option"
  cylinder :: "'a cylinder option"

text \<open>
  A visual's origin is a reference to a mutable array (or \<^verbatim>\<open>None\<close>): the loader binds a local
  name to that very array and later writes through it, so the arrays live in an explicit store.
\<close>

record 'a visual =
  visual_geometry :: "'a geometry"
  visual_origin :: "addr option"
  visual_material :: "'a material option"

record 'a link =
  visuals :: "'a visual list"

text \<open>
  The dictionaries \<^verbatim>\<open>joint_map\<close> and \<^verbatim>\<open>link_map\<close> are iterated, so they are association
  lists in insertion order. Iterating the keys and looking each one up again, as the source does,
  visits exactly the entries of the list.
\<close>

record 'a robot =
  base_link :: string
  joint_map :: "(string \<times> 'a joint) list"
  link_map :: "(string \<times> 'a link) list"
  material_map :: "(string \<times> 'a material) list"

record ('a, 'g) scene =
  scene_geometry :: "(string \<times> 'g) list"
  scene_graph :: "(string \<times> 'a \<times> string option) list"

datatype ('a, 'g) loaded = Scene "('a, 'g) scene" | Trimesh 'g

record ('a, 'g) env =
  eye4 :: 'a
  matmul :: "'a \<Rightarrow> 'a \<Rightarrow> 'a"
  rotate_block :: "'a \<Rightarrow> 'a"
  unit_scale :: 'a
  clip01 :: "'a \<Rightarrow> 'a"
  filename_handler :: "string \<Rightarrow> string"
  trimesh_load :: "string \<Rightarrow> error + ('a, 'g) loaded"
  trimesh_load_scene :: "string \<Rightarrow> error + ('a, 'g) scene"

section \<open>Collapsing fixed joints\<close>

record 'a collapse_maps =
  link_root_map :: "string \<rightharpoonup> string"
  link_pose_map :: "string \<rightharpoonup> 'a"

type_synonym 'a sort_state = "string list \<times> (string \<times> 'a joint) list"

text \<open>One pass of the \<^verbatim>\<open>for\<close> loop of lines 36-41 over the unsorted joints.\<close>

fun scan_pass :: "(string \<times> 'a joint) list \<Rightarrow> 'a sort_state \<Rightarrow> 'a sort_state" where
  "scan_pass [] st = st"
| "scan_pass ((joint_name, joint_info) # rest) (link_cache, joint_sorted) =
     (if joint_name \<in> set (map fst joint_sorted) then scan_pass rest (link_cache, joint_sorted)
      else if parent joint_info \<in> set link_cache
        then scan_pass rest (link_cache @ [child joint_info], joint_sorted @ [(joint_name, joint_info)])
        else scan_pass rest (link_cache, joint_sorted))"

text \<open>
  The \<^verbatim>\<open>while\<close> loop of line 35. Nothing bounds the number of passes, so the loop is a partial
  function: \<open>None\<close> is the run that never leaves the loop.
\<close>

partial_function (option) sort_joints ::
  "(string \<times> 'a joint) list \<Rightarrow> 'a sort_state \<Rightarrow> (string \<times> 'a joint) list option" where
  "sort_joints joint_unsorted st =
     (if length (snd st) < length joint_unsorted
      then sort_joints joint_unsorted (scan_pass joint_unsorted st)
      else Some (snd st))"

declare sort_joints.simps [code]

text \<open>
  The body of the loop of lines 44-55 for one sorted joint. Line 52 multiplies by the joint's
  origin without testing it: the product raises \<^verbatim>\<open>ValueError\<close> when the origin is \<^verbatim>\<open>None\<close>.
\<close>

definition build_step ::
  "('a, 'g) env \<Rightarrow> string \<times> 'a joint \<Rightarrow> 'a collapse_maps \<Rightarrow> error + 'a collapse_maps" where
  "build_step E nj m =
     (let joint_info = snd nj; p = parent joint_info; c = child joint_info in
      if jtype joint_info = ''fixed'' then
        (case link_root_map m p of
           None \<Rightarrow> Inl AssertionError
         | Some r \<Rightarrow>
             (case link_pose_map m p of
                None \<Rightarrow> Inl KeyError
              | Some pose \<Rightarrow>
                  (case origin joint_info of
                     None \<Rightarrow> Inl ValueError
                   | Some joint_origin \<Rightarrow>
                       Inr (m\<lparr>link_root_map := (link_root_map m)(c \<mapsto> r),
                              link_pose_map := (link_pose_map m)(c \<mapsto> matmul E pose joint_origin)\<rparr>))))
      else Inr (m\<lparr>link_root_map := (link_root_map m)(c \<mapsto> c),
                  link_pose_map := (link_pose_map m)(c \<mapsto> eye4 E)\<rparr>))"

fun build_tree ::
  "('a, 'g) env \<Rightarrow> (string \<times> 'a joint) list \<Rightarrow> 'a collapse_maps \<Rightarrow> error + 'a collapse_maps" where
  "build_tree E [] m = Inr m"
| "build_tree E (nj # rest) m =
     (case build_step E nj m of Inl e \<Rightarrow> Inl e | Inr m' \<Rightarrow> build_tree E rest m')"

definition init_maps :: "('a, 'g) env \<Rightarrow> 'a robot \<Rightarrow> 'a collapse_maps" where
  "init_maps E robot =
     \<lparr>link_root_map = [base_link robot \<mapsto> base_link robot],
      link_pose_map = [base_link robot \<mapsto> eye4 E]\<rparr>"

text \<open>Lines 28-55: the two maps, as the asset loop reads them afterwards.\<close>

definition collapse_links ::
  "('a, 'g) env \<Rightarrow> 'a robot \<Rightarrow> bool \<Rightarrow> (error + 'a collapse_maps) option" where
  "collapse_links E robot collapse_fixed_joints =
     (if collapse_fixed_joints then
        (case sort_joints (joint_map robot) ([base_link robot], []) of
           None \<Rightarrow> None
         | Some joint_sorted \<Rightarrow> Some (build_tree E joint_sorted (init_maps E robot)))
      else Some (Inr (init_maps E robot)))"

section \<open>The array store\<close>

text \<open>
  Arrays are cells of a store; \<open>next_free\<close> is the first address never handed out. A new array
  (\<^verbatim>\<open>np.eye(4)\<close>, the result of \<^verbatim>\<open>@\<close>) takes a fresh cell, a slice assignment overwrites
  the cell it is applied to.
\<close>

record 'a heap =
  cells :: "addr \<Rightarrow> 'a"
  next_free :: addr

definition alloc :: "'a heap \<Rightarrow> 'a \<Rightarrow> 'a heap \<times> addr" where
  "alloc h v = (h\<lparr>cells := (cells h)(next_free h := v), next_free := Suc (next_free h)\<rparr>, next_free h)"

section \<open>Resolving the assets\<close>

text \<open>
  What is handed to the renderer. The constructors keep the arguments of the library calls:
  \<open>TriangularMeshGeometry g s\<close> is built from the mesh \<open>g\<close> after \<^verbatim>\<open>apply_scale(s)\<close>,
  \<open>ObjMeshGeometry f s g\<close> from \<^verbatim>\<open>load_mesh(f, s, g)\<close>, \<open>TrimeshMaterial g c\<close> is
  \<^verbatim>\<open>get_trimesh_geometry_material(g, c)\<close>.
\<close>

datatype ('a, 'g) meshcat_geometry =
    TriangularMeshGeometry 'g 'a
  | ObjMeshGeometry string 'a 'g
  | DaeMeshGeometry string
  | Sphere 'a
  | Box 'a
  | Cylinder 'a 'a
  | Capsule 'a 'a

datatype ('a, 'g) meshcat_material = TrimeshMaterial 'g "'a option" | MeshPhongMaterial 'a

text \<open>
  An asset key \<^verbatim>\<open>f"{meshcat_link_name}/{geom_id}"\<close> is kept as the pair it is formatted from;
  \<open>format_key\<close> is the string, with the index in decimal as \<^verbatim>\<open>str\<close> writes it. The string
  determines the pair (\<open>format_key_inj\<close> below), so two assignments meet in the dictionary
  exactly when their pairs are equal. The two output dictionaries are kept as the list of their
  assignments in order; the dictionary itself is \<open>as_dict\<close> of that list.
\<close>

type_synonym asset_key = "string \<times> int"






definition as_dict :: "('k \<times> 'v) list \<Rightarrow> ('k \<rightharpoonup> 'v)" where
  "as_dict assignments = map_of (rev assignments)"

record ('a, 'g) asset_resource =
  visual_data :: "(asset_key \<times> ('a, 'g) meshcat_geometry \<times> ('a, 'g) meshcat_material option) list"
  pose_data :: "(asset_key \<times> addr) list"

record ('a, 'g) load_state =
  store :: "'a heap"
  link_mesh_count :: "string \<rightharpoonup> int"
  offline_data_dict :: "(asset_key \<times> ('a, 'g) meshcat_geometry \<times> ('a, 'g) meshcat_material option) list"
  offline_pose_dict :: "(asset_key \<times> addr) list"

type_synonym ('a, 'g) entries =
  "'a heap \<times> ('a, 'g) meshcat_geometry list \<times> ('a, 'g) meshcat_material option list \<times> addr list"

text \<open>
  \<^verbatim>\<open>str.lower\<close> and \<^verbatim>\<open>str.endswith\<close>, on bytes: only the letters \<open>A\<close> to \<open>Z\<close> change. No
  character outside ASCII lowers to a letter of the four endings that are tested, so the test
  of the last three characters is the one the source makes.
\<close>

definition lower_char :: "char \<Rightarrow> char" where
  "lower_char c =
     (if (65::nat) \<le> of_char c \<and> of_char c \<le> (90::nat) then char_of (of_char c + (32::nat)) else c)"

definition lower :: "string \<Rightarrow> string" where
  "lower s = map lower_char s"

definition endswith :: "string \<Rightarrow> string \<Rightarrow> bool" where
  "endswith s suffix = (length suffix \<le> length s \<and> drop (length s - length suffix) s = suffix)"

text \<open>Lines 65-74: the colour of the URDF material, if any.\<close>

definition parse_rgba ::
  "('a, 'g) env \<Rightarrow> (string \<times> 'a material) list \<Rightarrow> 'a visual \<Rightarrow> error + 'a option" where
  "parse_rgba E mat_map visual =
     (case visual_material visual of
        None \<Rightarrow> Inr None
      | Some mat \<Rightarrow>
          (case color mat of
             Some c \<Rightarrow> Inr (Some (clip01 E c))
           | None \<Rightarrow>
               (case material_name mat of
                  None \<Rightarrow> Inr None
                | Some n \<Rightarrow>
                    (case map_of mat_map n of
                       None \<Rightarrow> Inr None
                     | Some predefined \<Rightarrow>
                         (case color predefined of
                            None \<Rightarrow> Inl AttributeError
                          | Some c \<Rightarrow> Inr (Some (clip01 E c)))))))"

text \<open>Lines 61 and 76-77: the array that \<^verbatim>\<open>visual_pose\<close> names before the geometry is read.\<close>

definition initial_visual_pose :: "('a, 'g) env \<Rightarrow> 'a visual \<Rightarrow> 'a heap \<Rightarrow> 'a heap \<times> addr" where
  "initial_visual_pose E visual h =
     (case visual_origin visual of Some a \<Rightarrow> (h, a) | None \<Rightarrow> alloc h (eye4 E))"

definition collapsed_visual_pose ::
  "('a, 'g) env \<Rightarrow> bool \<Rightarrow> 'a collapse_maps \<Rightarrow> string \<Rightarrow> 'a heap \<times> addr \<Rightarrow> error + 'a heap \<times> addr" where
  "collapsed_visual_pose E collapse_fixed_joints m link_name hv =
     (if collapse_fixed_joints then
        (case link_pose_map m link_name of
           None \<Rightarrow> Inl KeyError
         | Some link_pose \<Rightarrow> Inr (alloc (fst hv) (matmul E link_pose (cells (fst hv) (snd hv)))))
      else Inr hv)"

text \<open>Lines 88-94: the sub-meshes of an OBJ scene.\<close>

fun obj_scene_loop ::
  "('a, 'g) env \<Rightarrow> ('a, 'g) scene \<Rightarrow> 'a \<Rightarrow> 'a option \<Rightarrow> addr \<Rightarrow> (string \<times> 'g) list \<Rightarrow> 'a heap \<Rightarrow>
   error + ('a, 'g) entries" where
  "obj_scene_loop E sc mesh_scale urdf_rgba visual_pose [] h = Inr (h, [], [], [])"
| "obj_scene_loop E sc mesh_scale urdf_rgba visual_pose ((name, sg) # rest) h =
     (case map_of (scene_graph sc) name of
        None \<Rightarrow> Inl LibraryError
      | Some node \<Rightarrow>
          (let (h', local_pose) = alloc h (matmul E (cells h visual_pose) (fst node)) in
           case obj_scene_loop E sc mesh_scale urdf_rgba visual_pose rest h' of
             Inl e \<Rightarrow> Inl e
           | Inr (h'', geometries, mats, poses) \<Rightarrow>
               Inr (h'', TriangularMeshGeometry sg mesh_scale # geometries,
                    Some (TrimeshMaterial sg urdf_rgba) # mats, local_pose # poses)))"

text \<open>Lines 107-113: the sub-meshes of a DAE scene; line 113 appends \<^verbatim>\<open>visual_pose\<close>.\<close>

fun dae_scene_loop ::
  "('a, 'g) env \<Rightarrow> ('a, 'g) scene \<Rightarrow> string \<Rightarrow> 'a option \<Rightarrow> addr \<Rightarrow> (string \<times> 'g) list \<Rightarrow> 'a heap \<Rightarrow>
   error + ('a, 'g) entries" where
  "dae_scene_loop E sc mesh_filename urdf_rgba visual_pose [] h = Inr (h, [], [], [])"
| "dae_scene_loop E sc mesh_filename urdf_rgba visual_pose ((name, sg) # rest) h =
     (case map_of (scene_graph sc) name of
        None \<Rightarrow> Inl LibraryError
      | Some node \<Rightarrow>
          (let (h', local_pose) = alloc h (matmul E (cells h visual_pose) (fst node)) in
           case dae_scene_loop E sc mesh_filename urdf_rgba visual_pose rest h' of
             Inl e \<Rightarrow> Inl e
           | Inr (h'', geometries, mats, poses) \<Rightarrow>
               Inr (h'', DaeMeshGeometry mesh_filename # geometries,
                    Some (TrimeshMaterial sg urdf_rgba) # mats, visual_pose # poses)))"

text \<open>
  Line 122: the dictionary from a geometry name to the node that shows it; a later node
  replaces an earlier one with the same geometry.
\<close>

definition geom_name_map :: "('a, 'g) scene \<Rightarrow> (string option \<rightharpoonup> string)" where
  "geom_name_map sc = as_dict (map (\<lambda>node. (snd (snd node), fst node)) (scene_graph sc))"

text \<open>Lines 123-128: the sub-meshes of a GLB scene.\<close>

fun glb_scene_loop ::
  "('a, 'g) env \<Rightarrow> ('a, 'g) scene \<Rightarrow> 'a \<Rightarrow> 'a option \<Rightarrow> addr \<Rightarrow> (string \<times> 'g) list \<Rightarrow> 'a heap \<Rightarrow>
   error + ('a, 'g) entries" where
  "glb_scene_loop E sc mesh_scale urdf_rgba visual_pose [] h = Inr (h, [], [], [])"
| "glb_scene_loop E sc mesh_scale urdf_rgba visual_pose ((name, sg) # rest) h =
     (case geom_name_map sc (Some name) of
        None \<Rightarrow> Inl KeyError
      | Some node_name \<Rightarrow>
          (case map_of (scene_graph sc) node_name of
             None \<Rightarrow> Inl LibraryError
           | Some node \<Rightarrow>
               (let (h', local_pose) = alloc h (matmul E (cells h visual_pose) (fst node)) in
                case glb_scene_loop E sc mesh_scale urdf_rgba visual_pose rest h' of
                  Inl e \<Rightarrow> Inl e
                | Inr (h'', geometries, mats, poses) \<Rightarrow>
                    Inr (h'', TriangularMeshGeometry sg mesh_scale # geometries,
                         Some (TrimeshMaterial sg urdf_rgba) # mats, local_pose # poses))))"

text \<open>Lines 80-130: a mesh geometry, by the ending of its file name.\<close>

definition mesh_entries ::
  "('a, 'g) env \<Rightarrow> 'a mesh \<Rightarrow> 'a option \<Rightarrow> addr \<Rightarrow> 'a heap \<Rightarrow> error + ('a, 'g) entries" where
  "mesh_entries E msh urdf_rgba visual_pose h =
     (let mesh_scale = (case scale msh of Some s \<Rightarrow> s | None \<Rightarrow> unit_scale E);
          mesh_filename = filename_handler E (filename msh) in
      if endswith (lower mesh_filename) ''obj'' then
        (case trimesh_load E mesh_filename of
           Inl e \<Rightarrow> Inl e
         | Inr (Scene sc) \<Rightarrow>
             obj_scene_loop E sc mesh_scale urdf_rgba visual_pose (scene_geometry sc) h
         | Inr (Trimesh trimesh_geom) \<Rightarrow>
             Inr (h, [ObjMeshGeometry mesh_filename mesh_scale trimesh_geom],
                  [Some (TrimeshMaterial trimesh_geom urdf_rgba)], [visual_pose]))
      else if endswith (lower mesh_filename) ''dae'' then
        (case trimesh_load E mesh_filename of
           Inl e \<Rightarrow> Inl e
         | Inr (Trimesh trimesh_geom) \<Rightarrow> Inl AssertionError
         | Inr (Scene sc) \<Rightarrow>
             dae_scene_loop E sc mesh_filename urdf_rgba visual_pose (scene_geometry sc) h)
      else if endswith (lower mesh_filename) ''stl'' then
        (case trimesh_load E mesh_filename of
           Inl e \<Rightarrow> Inl e
         | Inr (Scene sc) \<Rightarrow> Inl AttributeError
         | Inr (Trimesh m) \<Rightarrow>
             Inr (h, [TriangularMeshGeometry m mesh_scale],
                  [Some (TrimeshMaterial m urdf_rgba)], [visual_pose]))
      else if endswith (lower mesh_filename) ''glb'' then
        (case trimesh_load_scene E mesh_filename of
           Inl e \<Rightarrow> Inl e
         | Inr sc \<Rightarrow> glb_scene_loop E sc mesh_scale urdf_rgba visual_pose (scene_geometry sc) h)
      else Inl NotImplementedError)"

text \<open>
  Lines 133-151: a primitive. For a cylinder, line 139 (or 142) assigns to a slice of the array
  that \<^verbatim>\<open>visual_pose\<close> names: the cell is overwritten in place.
\<close>

definition primitive_entries ::
  "('a, 'g) env \<Rightarrow> bool \<Rightarrow> 'a geometry \<Rightarrow> 'a option \<Rightarrow> addr \<Rightarrow> 'a heap \<Rightarrow> error + ('a, 'g) entries" where
  "primitive_entries E replace_cylinder_with_capsule geom urdf_rgba visual_pose h =
     (let rotated = h\<lparr>cells := (cells h)(visual_pose := rotate_block E (cells h visual_pose))\<rparr>;
          mats = [case urdf_rgba of Some c \<Rightarrow> Some (MeshPhongMaterial c) | None \<Rightarrow> None] in
      case sphere geom of
        Some radius \<Rightarrow> Inr (h, [Sphere radius], mats, [visual_pose])
      | None \<Rightarrow>
          (case box geom of
             Some sz \<Rightarrow> Inr (h, [Box sz], mats, [visual_pose])
           | None \<Rightarrow>
               (case cylinder geom of
                  Some cyl \<Rightarrow>
                    (if \<not> replace_cylinder_with_capsule
                     then Inr (rotated, [Cylinder (cyl_length cyl) (cyl_radius cyl)], mats, [visual_pose])
                     else Inr (rotated, [Capsule (cyl_radius cyl) (cyl_length cyl)], mats, [visual_pose]))
                | None \<Rightarrow> Inl NotImplementedError)))"

definition geometry_entries ::
  "('a, 'g) env \<Rightarrow> bool \<Rightarrow> 'a geometry \<Rightarrow> 'a option \<Rightarrow> addr \<Rightarrow> 'a heap \<Rightarrow> error + ('a, 'g) entries" where
  "geometry_entries E replace_cylinder_with_capsule geom urdf_rgba visual_pose h =
     (case mesh geom of
        Some msh \<Rightarrow> mesh_entries E msh urdf_rgba visual_pose h
      | None \<Rightarrow> primitive_entries E replace_cylinder_with_capsule geom urdf_rgba visual_pose h)"

text \<open>Lines 154-157.\<close>

definition meshcat_link_name_of ::
  "bool \<Rightarrow> 'a collapse_maps \<Rightarrow> string \<Rightarrow> error + string" where
  "meshcat_link_name_of collapse_fixed_joints m link_name =
     (if collapse_fixed_joints then
        (case link_root_map m link_name of None \<Rightarrow> Inl KeyError | Some r \<Rightarrow> Inr r)
      else Inr link_name)"

text \<open>Lines 166-169: the assignments of one visual, and the counter after them.\<close>

fun emit ::
  "string \<Rightarrow> int \<Rightarrow> (('a, 'g) meshcat_geometry \<times> ('a, 'g) meshcat_material option \<times> addr) list \<Rightarrow>
   ('a, 'g) load_state \<Rightarrow> ('a, 'g) load_state \<times> int" where
  "emit meshcat_link_name geom_id [] st = (st, geom_id)"
| "emit meshcat_link_name geom_id ((each_geometry, each_mat, each_pose) # rest) st =
     emit meshcat_link_name (geom_id + 1) rest
       (st\<lparr>offline_data_dict :=
              offline_data_dict st @ [((meshcat_link_name, geom_id), (each_geometry, each_mat))],
           offline_pose_dict :=
              offline_pose_dict st @ [((meshcat_link_name, geom_id), each_pose)]\<rparr>)"

text \<open>Lines 159-170.\<close>

definition count_and_emit ::
  "string \<Rightarrow> ('a, 'g) entries \<Rightarrow> ('a, 'g) load_state \<Rightarrow> ('a, 'g) load_state" where
  "count_and_emit meshcat_link_name ents st =
     (let (h, geometries, mats, poses) = ents;
          geom_id = (case link_mesh_count st meshcat_link_name of None \<Rightarrow> 0 | Some c \<Rightarrow> c + 1);
          (st', geom_id') = emit meshcat_link_name geom_id (zip geometries (zip mats poses)) st in
      st'\<lparr>store := h, link_mesh_count := (link_mesh_count st)(meshcat_link_name \<mapsto> geom_id' - 1)\<rparr>)"

text \<open>Lines 59-170: the body of the loop over the visuals of one link.\<close>

definition load_visual ::
  "('a, 'g) env \<Rightarrow> bool \<Rightarrow> bool \<Rightarrow> (string \<times> 'a material) list \<Rightarrow> 'a collapse_maps \<Rightarrow> string \<Rightarrow>
   'a visual \<Rightarrow> ('a, 'g) load_state \<Rightarrow> error + ('a, 'g) load_state" where
  "load_visual E collapse_fixed_joints replace_cylinder_with_capsule mat_map m link_name visual st =
     (let hv = initial_visual_pose E visual (store st) in
      case parse_rgba E mat_map visual of
        Inl e \<Rightarrow> Inl e
      | Inr urdf_rgba \<Rightarrow>
          (case collapsed_visual_pose E collapse_fixed_joints m link_name hv of
             Inl e \<Rightarrow> Inl e
           | Inr (h, visual_pose) \<Rightarrow>
               (case geometry_entries E replace_cylinder_with_capsule (visual_geometry visual)
                       urdf_rgba visual_pose h of
                  Inl e \<Rightarrow> Inl e
                | Inr ents \<Rightarrow>
                    (case meshcat_link_name_of collapse_fixed_joints m link_name of
                       Inl e \<Rightarrow> Inl e
                     | Inr meshcat_link_name \<Rightarrow> Inr (count_and_emit meshcat_link_name ents st)))))"

fun load_visuals ::
  "('a, 'g) env \<Rightarrow> bool \<Rightarrow> bool \<Rightarrow> (string \<times> 'a material) list \<Rightarrow> 'a collapse_maps \<Rightarrow> string \<Rightarrow>
   'a visual list \<Rightarrow> ('a, 'g) load_state \<Rightarrow> error + ('a, 'g) load_state" where
  "load_visuals E cfj cap mat_map m link_name [] st = Inr st"
| "load_visuals E cfj cap mat_map m link_name (visual # rest) st =
     (case load_visual E cfj cap mat_map m link_name visual st of
        Inl e \<Rightarrow> Inl e
      | Inr st' \<Rightarrow> load_visuals E cfj cap mat_map m link_name rest st')"

fun load_links ::
  "('a, 'g) env \<Rightarrow> bool \<Rightarrow> bool \<Rightarrow> (string \<times> 'a material) list \<Rightarrow> 'a collapse_maps \<Rightarrow>
   (string \<times> 'a link) list \<Rightarrow> ('a, 'g) load_state \<Rightarrow> error + ('a, 'g) load_state" where
  "load_links E cfj cap mat_map m [] st = Inr st"
| "load_links E cfj cap mat_map m ((link_name, link_info) # rest) st =
     (case load_visuals E cfj cap mat_map m link_name (visuals link_info) st of
        Inl e \<Rightarrow> Inl e
      | Inr st' \<Rightarrow> load_links E cfj cap mat_map m rest st')"

definition initial_state :: "'a heap \<Rightarrow> ('a, 'g) load_state" where
  "initial_state h =
     \<lparr>store = h, link_mesh_count = Map.empty, offline_data_dict = [], offline_pose_dict = []\<rparr>"

text \<open>
  The whole call. The parsed tree and the store holding its arrays stand for what
  \<^verbatim>\<open>urdf.URDF.load(urdf_path)\<close> returns; the result is the resource together with the store
  its poses point into. \<open>None\<close> is the call that never returns.
\<close>

definition load_urdf_with_yourdfpy ::
  "('a, 'g) env \<Rightarrow> 'a robot \<Rightarrow> 'a heap \<Rightarrow> bool \<Rightarrow> bool \<Rightarrow> bool \<Rightarrow>
   (error + 'a heap \<times> ('a, 'g) asset_resource) option" where
  "load_urdf_with_yourdfpy E robot h collapse_fixed_joints replace_cylinder_with_capsule use_mesh_materials =
     (let mat_map = (if \<not> use_mesh_materials then material_map robot else []) in
      case collapse_links E robot collapse_fixed_joints of
        None \<Rightarrow> None
      | Some (Inl e) \<Rightarrow> Some (Inl e)
      | Some (Inr m) \<Rightarrow>
          (case load_links E collapse_fixed_joints replace_cylinder_with_capsule mat_map m
                  (link_map robot) (initial_state h) of
             Inl e \<Rightarrow> Some (Inl e)
           | Inr st \<Rightarrow>
               Some (Inr (store st,
                 \<lparr>visual_data = offline_data_dict st, pose_data = offline_pose_dict st\<rparr>))))"

section \<open>Well-formed trees\<close>

text \<open>
  A link resolves to the base when walking up through the joints that have it as child reaches
  the base link; the first argument bounds the length of the walk. A tree is well-formed when
  the joint names are distinct (they are the keys of a dictionary), every joint's parent
  resolves to the base within some number \<open>k\<close> of steps, no link is the child of two joints and
  the base is no joint's child. The bound is a parameter of the predicates, and every theorem
  holds for any value of it.
\<close>

fun resolves :: "nat \<Rightarrow> (string \<times> 'a joint) list \<Rightarrow> string \<Rightarrow> string \<Rightarrow> bool" where
  "resolves 0 js b l = (l = b)"
| "resolves (Suc k) js b l =
     (l = b \<or> (\<exists>nj \<in> set js. child (snd nj) = l \<and> resolves k js b (parent (snd nj))))"

definition all_resolve :: "nat \<Rightarrow> 'a robot \<Rightarrow> bool" where
  "all_resolve k robot =
     (distinct (map fst (joint_map robot)) \<and>
      (\<forall>nj \<in> set (joint_map robot).
         resolves k (joint_map robot) (base_link robot) (parent (snd nj))))"

definition wf_tree :: "nat \<Rightarrow> 'a robot \<Rightarrow> bool" where
  "wf_tree k robot =
     (all_resolve k robot \<and>
      distinct (map (\<lambda>nj. child (snd nj)) (joint_map robot)) \<and>
      base_link robot \<notin> set (map (\<lambda>nj. child (snd nj)) (joint_map robot)))"

text \<open>Line 52 needs an origin for every fixed joint; the other joints' origins are not read.\<close>

definition fixed_joints_have_origin :: "'a robot \<Rightarrow> bool" where
  "fixed_joints_have_origin robot =
     (\<forall>nj \<in> set (joint_map robot). jtype (snd nj) = ''fixed'' \<longrightarrow> origin (snd nj) \<noteq> None)"


section \<open>Notions used in the proofs\<close>

text \<open>
  A list of joints is ordered from a set of links when each joint's parent is in the set or is
  the child of an earlier joint of the list.
\<close>

fun ordered :: "string set \<Rightarrow> (string \<times> 'a joint) list \<Rightarrow> bool" where
  "ordered S [] = True"
| "ordered S (nj # rest) = (parent (snd nj) \<in> S \<and> ordered (insert (child (snd nj)) S) rest)"

definition sort_inv :: "(string \<times> 'a joint) list \<Rightarrow> string \<Rightarrow> 'a sort_state \<Rightarrow> bool" where
  "sort_inv js b st =
     (distinct (map fst (snd st)) \<and> set (snd st) \<subseteq> set js \<and>
      set (fst st) = insert b (set (map (\<lambda>nj. child (snd nj)) (snd st))) \<and>
      ordered {b} (snd st))"

text \<open>
  What the two maps hold for one joint once the tree is built, and the invariant that every
  recorded root is its own root with the identity pose.
\<close>

definition joint_law :: "('a, 'g) env \<Rightarrow> 'a collapse_maps \<Rightarrow> string \<times> 'a joint \<Rightarrow> bool" where
  "joint_law E m nj =
     (if jtype (snd nj) = ''fixed'' then
        (\<exists>r p joint_origin.
           origin (snd nj) = Some joint_origin \<and>
           link_root_map m (parent (snd nj)) = Some r \<and> link_pose_map m (parent (snd nj)) = Some p \<and>
           link_root_map m (child (snd nj)) = Some r \<and>
           link_pose_map m (child (snd nj)) = Some (matmul E p joint_origin))
      else link_root_map m (child (snd nj)) = Some (child (snd nj)) \<and>
           link_pose_map m (child (snd nj)) = Some (eye4 E))"

definition canon_inv :: "('a, 'g) env \<Rightarrow> 'a collapse_maps \<Rightarrow> bool" where
  "canon_inv E m =
     (\<forall>x r. link_root_map m x = Some r \<longrightarrow> link_root_map m r = Some r \<and> link_pose_map m r = Some (eye4 E))"

text \<open>
  The state of a scan that can never finish: everything in the cache and every parent of a
  sorted joint resolves to the base, so a joint whose parent does not resolve stays unsorted.
\<close>

definition stuck :: "(string \<times> 'a joint) list \<Rightarrow> string \<Rightarrow> 'a sort_state \<Rightarrow> bool" where
  "stuck js b st =
     ((\<forall>l \<in> set (fst st). \<exists>k. resolves k js b l) \<and>
      distinct (map fst (snd st)) \<and> set (snd st) \<subseteq> set js \<and>
      (\<forall>nj \<in> set (snd st). \<exists>k. resolves k js b (parent (snd nj))))"



text \<open>The two nested loops over links and visuals, as one loop over the (link, visual) pairs.\<close>

fun load_flat ::
  "('a, 'g) env \<Rightarrow> bool \<Rightarrow> bool \<Rightarrow> (string \<times> 'a material) list \<Rightarrow> 'a collapse_maps \<Rightarrow>
   (string \<times> 'a visual) list \<Rightarrow> ('a, 'g) load_state \<Rightarrow> error + ('a, 'g) load_state" where
  "load_flat E cfj cap mm m [] st = Inr st"
| "load_flat E cfj cap mm m (x # rest) st =
     (case load_visual E cfj cap mm m (fst x) (snd x) st of
        Inl e \<Rightarrow> Inl e
      | Inr st' \<Rightarrow> load_flat E cfj cap mm m rest st')"

section \<open>Effective poses without a link pose\<close>

text \<open>
  What the poses of the entries of one visual are when no link pose is composed in: the visual's
  own origin (the identity when it has none), with the axis correction for a cylinder, and
  composed with the local transform of each sub-mesh for an OBJ scene or a GLB file. For the
  sub-meshes of a DAE scene the pose is left open: there is one entry per sub-mesh, and nothing
  is said of what line 113 stores in it.
\<close>

datatype 'a pose_spec = Exactly 'a | Unspecified

fun pose_agrees :: "'a \<Rightarrow> 'a pose_spec \<Rightarrow> bool" where
  "pose_agrees p (Exactly q) = (p = q)"
| "pose_agrees p Unspecified = True"

definition entry_agrees :: "string \<times> 'a \<Rightarrow> string \<times> 'a pose_spec \<Rightarrow> bool" where
  "entry_agrees entry expected = (fst entry = fst expected \<and> pose_agrees (snd entry) (snd expected))"

definition own_origin :: "('a, 'g) env \<Rightarrow> 'a heap \<Rightarrow> 'a visual \<Rightarrow> 'a" where
  "own_origin E h v = (case visual_origin v of Some a \<Rightarrow> cells h a | None \<Rightarrow> eye4 E)"

definition obj_local :: "('a, 'g) scene \<Rightarrow> string \<Rightarrow> 'a option" where
  "obj_local sc name = map_option fst (map_of (scene_graph sc) name)"

definition glb_local :: "('a, 'g) scene \<Rightarrow> string \<Rightarrow> 'a option" where
  "glb_local sc name =
     (case geom_name_map sc (Some name) of
        None \<Rightarrow> None
      | Some node_name \<Rightarrow> map_option fst (map_of (scene_graph sc) node_name))"

definition local_poses :: "('a, 'g) env \<Rightarrow> 'a geometry \<Rightarrow> 'a \<Rightarrow> 'a pose_spec list" where
  "local_poses E geom own =
     (case mesh geom of
        Some msh \<Rightarrow>
          (let f = filename_handler E (filename msh) in
           if endswith (lower f) ''obj'' then
             (case trimesh_load E f of
                Inr (Scene sc) \<Rightarrow>
                  List.map_filter
                    (\<lambda>g. map_option (\<lambda>t. Exactly (matmul E own t)) (obj_local sc (fst g)))
                    (scene_geometry sc)
              | Inr (Trimesh t) \<Rightarrow> [Exactly own]
              | Inl e \<Rightarrow> [])
           else if endswith (lower f) ''dae'' then
             (case trimesh_load E f of
                Inr (Scene sc) \<Rightarrow> map (\<lambda>g. Unspecified) (scene_geometry sc)
              | _ \<Rightarrow> [])
           else if endswith (lower f) ''stl'' then [Exactly own]
           else if endswith (lower f) ''glb'' then
             (case trimesh_load_scene E f of
                Inr sc \<Rightarrow>
                  List.map_filter
                    (\<lambda>g. map_option (\<lambda>t. Exactly (matmul E own t)) (glb_local sc (fst g)))
                    (scene_geometry sc)
              | Inl e \<Rightarrow> [])
           else [])
      | None \<Rightarrow>
          (if sphere geom \<noteq> None \<or> box geom \<noteq> None then [Exactly own]
           else if cylinder geom \<noteq> None then [Exactly (rotate_block E own)]
           else []))"

definition link_visuals :: "'a robot \<Rightarrow> (string \<times> 'a visual) list" where
  "link_visuals robot = concat (map (\<lambda>l. map (Pair (fst l)) (visuals (snd l))) (link_map robot))"

text \<open>
  Every visual owns its origin array (the parser builds one per origin element), and the arrays
  of the input are cells of the store the call starts from.
\<close>

definition origin_addrs :: "(string \<times> 'a visual) list \<Rightarrow> addr list" where
  "origin_addrs xs = List.map_filter (\<lambda>x. visual_origin (snd x)) xs"

definition origins_separate :: "'a heap \<Rightarrow> (string \<times> 'a visual) list \<Rightarrow> bool" where
  "origins_separate h xs =
     (distinct (origin_addrs xs) \<and> (\<forall>a \<in> set (origin_addrs xs). a < next_free h))"

definition expected_poses ::
  "('a, 'g) env \<Rightarrow> 'a heap \<Rightarrow> (string \<times> 'a visual) list \<Rightarrow> (string \<times> 'a pose_spec) list" where
  "expected_poses E h xs =
     concat (map (\<lambda>x. map (Pair (fst x)) (local_poses E (visual_geometry (snd x)) (own_origin E h (snd x)))) xs)"

definition link_addrs :: "(asset_key \<times> addr) list \<Rightarrow> (string \<times> addr) list" where
  "link_addrs assignments = map (\<lambda>ka. (fst (fst ka), snd ka)) assignments"

definition effective_poses ::
  "'a heap \<Rightarrow> (asset_key \<times> addr) list \<Rightarrow> (string \<times> 'a) list" where
  "effective_poses h assignments = map (\<lambda>ka. (fst (fst ka), cells h (snd ka))) assignments"

definition entries_ok ::
  "('a, 'g) env \<Rightarrow> 'a geometry \<Rightarrow> addr \<Rightarrow> 'a heap \<Rightarrow> ('a, 'g) entries \<Rightarrow> bool" where
  "entries_ok E geom vp h ents =
     (case ents of (h', gs, ms, ps) \<Rightarrow>
        length gs = length ps \<and> length ms = length ps \<and> next_free h \<le> next_free h' \<and>
        (\<forall>a < next_free h. a \<noteq> vp \<longrightarrow> cells h' a = cells h a) \<and>
        (\<forall>p \<in> set ps. p = vp \<or> (next_free h \<le> p \<and> p < next_free h')) \<and>
        list_all2 pose_agrees (map (cells h') ps) (local_poses E geom (cells h vp)))"

section \<open>Unsupported geometry\<close>

definition supported_extension :: "string \<Rightarrow> bool" where
  "supported_extension f =
     (endswith (lower f) ''obj'' \<or> endswith (lower f) ''dae'' \<or>
      endswith (lower f) ''stl'' \<or> endswith (lower f) ''glb'')"

definition unsupported :: "('a, 'g) env \<Rightarrow> 'a visual \<Rightarrow> bool" where
  "unsupported E v =
     (case mesh (visual_geometry v) of
        Some msh \<Rightarrow> \<not> supported_extension (filename_handler E (filename msh))
      | None \<Rightarrow> sphere (visual_geometry v) = None \<and> box (visual_geometry v) = None \<and>
                cylinder (visual_geometry v) = None)"

section \<open>A concrete instance\<close>

text \<open>
  An environment with exact integer matrices (the quarter turn about the x axis of line 139 is
  taken with cosine 0 and sine 1), and scenario A of the specification (base
  \<open>B\<close>, fixed joints to \<open>L1\<close> and \<open>L2\<close>, a movable joint to \<open>L3\<close>) with its joints listed
  children first.
\<close>

definition mat_mul :: "int list list \<Rightarrow> int list list \<Rightarrow> int list list" where
  "mat_mul A B = map (\<lambda>row. map (\<lambda>col. sum_list (map2 (*) row col)) (transpose B)) A"

definition rot_x :: "int list list" where
  "rot_x = [[1, 0, 0], [0, 0, -1], [0, 1, 0]]"

definition rotate_block_exact :: "int list list \<Rightarrow> int list list" where
  "rotate_block_exact M =
     map2 (\<lambda>b row. b @ drop 3 row) (mat_mul (map (take 3) (take 3 M)) rot_x) (take 3 M) @ drop 3 M"

definition eye_exact :: "int list list" where
  "eye_exact = [[1, 0, 0, 0], [0, 1, 0, 0], [0, 0, 1, 0], [0, 0, 0, 1]]"

definition translation :: "int \<Rightarrow> int \<Rightarrow> int \<Rightarrow> int list list" where
  "translation x y z = [[1, 0, 0, x], [0, 1, 0, y], [0, 0, 1, z], [0, 0, 0, 1]]"

definition part_scene :: "(int list list, string) scene" where
  "part_scene = \<lparr>scene_geometry = [(''part'', ''part-mesh'')],
                 scene_graph = [(''part'', translation 0 0 5, Some ''part'')]\<rparr>"

definition demo_files :: "string \<Rightarrow> error + (int list list, string) loaded" where
  "demo_files f =
     (if f = ''arm.dae'' \<or> f = ''arm.obj'' then Inr (Scene part_scene)
      else if f = ''hand.stl'' then Inr (Trimesh ''hand-mesh'')
      else Inl LibraryError)"

definition exact_env :: "(int list list, string) env" where
  "exact_env =
     \<lparr>eye4 = eye_exact, matmul = mat_mul, rotate_block = rotate_block_exact,
      unit_scale = [[1, 1, 1]], clip01 = map (map (\<lambda>x. max 0 (min 1 x))),
      filename_handler = (\<lambda>f. f), trimesh_load = demo_files,
      trimesh_load_scene = (\<lambda>f. if f = ''arm.glb'' then Inr part_scene else Inl LibraryError)\<rparr>"

definition no_geometry :: "int list list geometry" where
  "no_geometry = \<lparr>mesh = None, sphere = None, box = None, cylinder = None\<rparr>"

definition sphere_visual :: "int list list visual" where
  "sphere_visual = \<lparr>visual_geometry = no_geometry\<lparr>sphere := Some [[2]]\<rparr>,
                    visual_origin = None, visual_material = None\<rparr>"

definition cylinder_visual :: "int list list visual" where
  "cylinder_visual = \<lparr>visual_geometry = no_geometry\<lparr>cylinder := Some \<lparr>cyl_radius = [[1]], cyl_length = [[4]]\<rparr>\<rparr>,
                      visual_origin = Some 0, visual_material = None\<rparr>"

definition mesh_visual :: "string \<Rightarrow> int list list visual" where
  "mesh_visual f = \<lparr>visual_geometry = no_geometry\<lparr>mesh := Some \<lparr>filename = f, scale = None\<rparr>\<rparr>,
                    visual_origin = Some 1, visual_material = None\<rparr>"

definition demo_heap :: "int list list heap" where
  "demo_heap = \<lparr>cells = (\<lambda>_. eye_exact)(0 := translation 1 2 3, 1 := translation 4 5 6), next_free = 2\<rparr>"

definition scenario_A :: "int list list robot" where
  "scenario_A =
     \<lparr>base_link = ''B'',
      joint_map =
        [(''j3'', \<lparr>parent = ''L2'', child = ''L3'', jtype = ''revolute'', origin = Some (translation 0 0 3)\<rparr>),
         (''j2'', \<lparr>parent = ''L1'', child = ''L2'', jtype = ''fixed'', origin = Some (translation 0 2 0)\<rparr>),
         (''j1'', \<lparr>parent = ''B'', child = ''L1'', jtype = ''fixed'', origin = Some (translation 1 0 0)\<rparr>)],
      link_map =
        [(''B'', \<lparr>visuals = [sphere_visual]\<rparr>),
         (''L1'', \<lparr>visuals = [cylinder_visual]\<rparr>),
         (''L2'', \<lparr>visuals = [mesh_visual ''arm.obj'', sphere_visual]\<rparr>),
         (''L3'', \<lparr>visuals = [sphere_visual, sphere_visual]\<rparr>)],
      material_map = []\<rparr>"

definition emitted_poses ::
  "(error + 'a heap \<times> ('a, 'g) asset_resource) option \<Rightarrow> (asset_key \<times> 'a) list" where
  "emitted_poses r =
     (case r of Some (Inr (h, res)) \<Rightarrow> map (\<lambda>ka. (fst ka, cells h (snd ka))) (pose_data res) | _ \<Rightarrow> [])"

text \<open>Scenario D: the only joint hangs off a link that is neither the base nor a child.\<close>

definition dangling_robot :: "int list list robot" where
  "dangling_robot =
     \<lparr>base_link = ''B'',
      joint_map = [(''j1'', \<lparr>parent = ''ghost'', child = ''L1'', jtype = ''fixed'', origin = Some (translation 1 0 0)\<rparr>)],
      link_map = [(''B'', \<lparr>visuals = [sphere_visual]\<rparr>), (''L1'', \<lparr>visuals = [sphere_visual]\<rparr>)],
      material_map = []\<rparr>"

text \<open>A well-formed tree whose one fixed joint has no origin element.\<close>

definition originless_robot :: "int list list robot" where
  "originless_robot =
     \<lparr>base_link = ''B'',
      joint_map = [(''j1'', \<lparr>parent = ''B'', child = ''L1'', jtype = ''fixed'', origin = None\<rparr>)],
      link_map = [(''B'', \<lparr>visuals = [sphere_visual]\<rparr>), (''L1'', \<lparr>visuals = [sphere_visual]\<rparr>)],
      material_map = []\<rparr>"

text \<open>A fixed joint from the base to a link with one mesh visual, and a single cylinder.\<close>

definition mesh_robot :: "string \<Rightarrow> int list list robot" where
  "mesh_robot f =
     \<lparr>base_link = ''B'',
      joint_map = [(''j1'', \<lparr>parent = ''B'', child = ''L1'', jtype = ''fixed'', origin = Some (translation 1 0 0)\<rparr>)],
      link_map = [(''B'', \<lparr>visuals = []\<rparr>), (''L1'', \<lparr>visuals = [mesh_visual f]\<rparr>)],
      material_map = []\<rparr>"

definition cylinder_robot :: "int list list robot" where
  "cylinder_robot =
     \<lparr>base_link = ''B'', joint_map = [],
      link_map = [(''B'', \<lparr>visuals = [cylinder_visual]\<rparr>)], material_map = []\<rparr>"

definition cell_after ::
  "(error + 'a heap \<times> ('a, 'g) asset_resource) option \<Rightarrow> addr \<Rightarrow> 'a option" where
  "cell_after r a = (case r of Some (Inr (h, res)) \<Rightarrow> Some (cells h a) | _ \<Rightarrow> None)"

section \<open>The joint scan\<close>

lemma ordered_append:
  "ordered S (xs @ [nj]) = (ordered S xs \<and> parent (snd nj) \<in> S \<union> set (map (\<lambda>nj. child (snd nj)) xs))"
  by (induction xs arbitrary: S) auto

lemma scan_pass_inv:
  "sort_inv js b st \<Longrightarrow> set xs \<subseteq> set js \<Longrightarrow> sort_inv js b (scan_pass xs st)"
proof (induction xs st rule: scan_pass.induct)
  case (1 st)
  then show ?case by simp
next
  case (2 joint_name joint_info rest link_cache joint_sorted)
  show ?case
  proof (cases "joint_name \<in> set (map fst joint_sorted)")
    case True
    with 2 show ?thesis by simp
  next
    case unsorted: False
    show ?thesis
    proof (cases "parent joint_info \<in> set link_cache")
      case True
      have "sort_inv js b (link_cache @ [child joint_info], joint_sorted @ [(joint_name, joint_info)])"
        using "2.prems" unsorted True
        by (auto simp: sort_inv_def ordered_append)
      with 2 unsorted True show ?thesis by simp
    next
      case False
      with 2 unsorted show ?thesis by simp
    qed
  qed
qed

lemma scan_pass_length_mono: "length (snd st) \<le> length (snd (scan_pass xs st))"
proof (induction xs st rule: scan_pass.induct)
  case (1 st)
  then show ?case by simp
next
  case (2 joint_name joint_info rest link_cache joint_sorted)
  then show ?case by (auto split: if_splits)
qed

lemma scan_pass_progress:
  "(n, j) \<in> set xs \<Longrightarrow> n \<notin> set (map fst s) \<Longrightarrow> parent j \<in> set c \<Longrightarrow>
   length s < length (snd (scan_pass xs (c, s)))"
proof (induction xs "(c, s)" arbitrary: c s rule: scan_pass.induct)
  case 1
  then show ?case by simp
next
  case (2 joint_name joint_info rest link_cache joint_sorted)
  show ?case
  proof (cases "joint_name \<in> set (map fst joint_sorted)")
    case True
    with 2 show ?thesis by auto
  next
    case unsorted: False
    show ?thesis
    proof (cases "parent joint_info \<in> set link_cache")
      case True
      have "length (joint_sorted @ [(joint_name, joint_info)])
            \<le> length (snd (scan_pass rest (link_cache @ [child joint_info], joint_sorted @ [(joint_name, joint_info)])))"
        using scan_pass_length_mono[of "(link_cache @ [child joint_info], joint_sorted @ [(joint_name, joint_info)])" rest]
        by simp
      with unsorted True show ?thesis by simp
    next
      case False
      with 2 unsorted show ?thesis by auto
    qed
  qed
qed

lemma resolves_frontier:
  assumes inv: "sort_inv js b (c, s)" and dn: "distinct (map fst js)"
  shows "resolves k js b l \<Longrightarrow>
         l \<in> set c \<or> (\<exists>nj \<in> set js. fst nj \<notin> set (map fst s) \<and> parent (snd nj) \<in> set c)"
proof (induction k arbitrary: l)
  case 0
  with inv show ?case by (simp add: sort_inv_def)
next
  case (Suc k)
  from Suc.prems consider "l = b"
    | nj where "nj \<in> set js" "child (snd nj) = l" "resolves k js b (parent (snd nj))"
    by auto
  then show ?case
  proof cases
    case 1
    with inv show ?thesis by (simp add: sort_inv_def)
  next
    case 2
    from Suc.IH[OF 2(3)] show ?thesis
    proof
      assume pc: "parent (snd nj) \<in> set c"
      show ?thesis
      proof (cases "fst nj \<in> set (map fst s)")
        case True
        then obtain nj' where nj': "nj' \<in> set s" "fst nj' = fst nj" by auto
        with inv have "nj' \<in> set js" by (auto simp: sort_inv_def)
        with dn nj' 2(1) have "nj' = nj"
          by (metis eq_key_imp_eq_value prod.collapse)
        with nj' inv 2(2) show ?thesis by (auto simp: sort_inv_def)
      next
        case False
        with pc 2(1) show ?thesis by blast
      qed
    next
      assume "\<exists>nj \<in> set js. fst nj \<notin> set (map fst s) \<and> parent (snd nj) \<in> set c"
      then show ?thesis by blast
    qed
  qed
qed

lemma sort_inv_length:
  assumes "sort_inv js b (c, s)"
  shows "length s \<le> length js"
proof -
  from assms have d: "distinct s" and sub: "set s \<subseteq> set js"
    by (auto simp: sort_inv_def distinct_map)
  have "length s = card (set s)" using d by (simp add: distinct_card)
  also have "\<dots> \<le> card (set js)" using sub by (simp add: card_mono)
  also have "\<dots> \<le> length js" by (rule card_length)
  finally show ?thesis .
qed

lemma unsorted_exists:
  assumes inv: "sort_inv js b (c, s)" and dn: "distinct (map fst js)" and lt: "length s < length js"
  shows "\<exists>nj \<in> set js. fst nj \<notin> set (map fst s)"
proof (rule ccontr)
  assume "\<not> ?thesis"
  then have "set (map fst js) \<subseteq> set (map fst s)" by auto
  then have "card (set (map fst js)) \<le> card (set (map fst s))" by (simp add: card_mono)
  moreover have "card (set (map fst js)) = length js" using dn by (metis distinct_card length_map)
  moreover have "card (set (map fst s)) \<le> length s" by (metis card_length length_map)
  ultimately show False using lt by simp
qed

lemma pass_makes_progress:
  assumes inv: "sort_inv js b (c, s)" and dn: "distinct (map fst js)"
    and res: "\<forall>nj \<in> set js. resolves k js b (parent (snd nj))"
    and lt: "length s < length js"
  shows "length s < length (snd (scan_pass js (c, s)))"
proof -
  from unsorted_exists[OF inv dn lt] obtain nj where nj: "nj \<in> set js" "fst nj \<notin> set (map fst s)"
    by blast
  from res nj have "resolves k js b (parent (snd nj))" by blast
  from resolves_frontier[OF inv dn this] nj
  obtain nj' where "nj' \<in> set js" "fst nj' \<notin> set (map fst s)" "parent (snd nj') \<in> set c"
    by blast
  then show ?thesis
    using scan_pass_progress[of "fst nj'" "snd nj'" js s c] by simp
qed

lemma sort_joints_terminates:
  assumes dn: "distinct (map fst js)"
    and res: "\<forall>nj \<in> set js. resolves k js b (parent (snd nj))"
  shows "sort_inv js b st \<Longrightarrow>
         \<exists>s. sort_joints js st = Some s \<and> length s = length js \<and> (\<exists>c. sort_inv js b (c, s))"
proof (induction "length js - length (snd st)" arbitrary: st rule: less_induct)
  case less
  obtain c s where st: "st = (c, s)" by (cases st)
  show ?case
  proof (cases "length s < length js")
    case True
    let ?st' = "scan_pass js st"
    have inv': "sort_inv js b ?st'" using less.prems by (simp add: scan_pass_inv)
    have "length s < length (snd ?st')"
      using pass_makes_progress[OF _ dn res True] less.prems st by simp
    then have "length js - length (snd ?st') < length js - length (snd st)"
      using True st by simp
    from less.hyps[OF this inv'] show ?thesis
      using True st by (subst sort_joints.simps) simp
  next
    case False
    moreover have "length s \<le> length js" using less.prems st sort_inv_length by blast
    ultimately show ?thesis using less.prems st
      by (subst sort_joints.simps) auto
  qed
qed

section \<open>Building the two maps\<close>

lemma build_step_ok:
  assumes "parent (snd nj) \<in> dom (link_root_map m)" "dom (link_pose_map m) = dom (link_root_map m)"
    and "jtype (snd nj) = ''fixed'' \<longrightarrow> origin (snd nj) \<noteq> None"
  shows "\<exists>m'. build_step E nj m = Inr m' \<and>
           dom (link_root_map m') = insert (child (snd nj)) (dom (link_root_map m)) \<and>
           dom (link_pose_map m') = dom (link_root_map m') \<and>
           (\<forall>x. x \<noteq> child (snd nj) \<longrightarrow> link_root_map m' x = link_root_map m x \<and> link_pose_map m' x = link_pose_map m x) \<and>
           (child (snd nj) \<noteq> parent (snd nj) \<longrightarrow> joint_law E m' nj)"
proof -
  from assms obtain r p where
    "link_root_map m (parent (snd nj)) = Some r" "link_pose_map m (parent (snd nj)) = Some p"
    by (metis domD domI)
  then show ?thesis using assms(2,3)
    by (auto simp: build_step_def joint_law_def Let_def)
qed

lemma build_step_value_error:
  assumes "parent (snd nj) \<in> dom (link_root_map m)" "dom (link_pose_map m) = dom (link_root_map m)"
    and "jtype (snd nj) = ''fixed''" "origin (snd nj) = None"
  shows "build_step E nj m = Inl ValueError"
proof -
  from assms(1,2) obtain r p where
    "link_root_map m (parent (snd nj)) = Some r" "link_pose_map m (parent (snd nj)) = Some p"
    by (metis domD domI)
  then show ?thesis using assms(3,4)
    by (simp add: build_step_def Let_def)
qed

lemma joint_law_frame:
  assumes "joint_law E m nj"
    and "link_root_map m' (parent (snd nj)) = link_root_map m (parent (snd nj))"
    and "link_pose_map m' (parent (snd nj)) = link_pose_map m (parent (snd nj))"
    and "link_root_map m' (child (snd nj)) = link_root_map m (child (snd nj))"
    and "link_pose_map m' (child (snd nj)) = link_pose_map m (child (snd nj))"
  shows "joint_law E m' nj"
  using assms by (auto simp: joint_law_def split: if_splits)

lemma build_tree_ok:
  "ordered (dom (link_root_map m)) s \<Longrightarrow> dom (link_pose_map m) = dom (link_root_map m) \<Longrightarrow>
   distinct (map (\<lambda>nj. child (snd nj)) s) \<Longrightarrow> set (map (\<lambda>nj. child (snd nj)) s) \<inter> dom (link_root_map m) = {} \<Longrightarrow>
   \<forall>nj \<in> set s. jtype (snd nj) = ''fixed'' \<longrightarrow> origin (snd nj) \<noteq> None \<Longrightarrow>
   \<exists>m'. build_tree E s m = Inr m' \<and>
     dom (link_root_map m') = dom (link_root_map m) \<union> set (map (\<lambda>nj. child (snd nj)) s) \<and>
     dom (link_pose_map m') = dom (link_root_map m') \<and>
     (\<forall>x \<in> dom (link_root_map m). link_root_map m' x = link_root_map m x \<and> link_pose_map m' x = link_pose_map m x) \<and>
     (\<forall>nj \<in> set s. joint_law E m' nj)"
proof (induction s arbitrary: m)
  case Nil
  then show ?case by simp
next
  case (Cons nj rest)
  let ?c = "child (snd nj)" and ?p = "parent (snd nj)"
  from Cons.prems have pin: "?p \<in> dom (link_root_map m)" and cfresh: "?c \<notin> dom (link_root_map m)"
    by auto
  then have ne: "?c \<noteq> ?p" by auto
  from Cons.prems(5) have og: "jtype (snd nj) = ''fixed'' \<longrightarrow> origin (snd nj) \<noteq> None" by simp
  from build_step_ok[OF pin Cons.prems(2) og, of E] ne obtain m1 where
    m1: "build_step E nj m = Inr m1"
      "dom (link_root_map m1) = insert ?c (dom (link_root_map m))"
      "dom (link_pose_map m1) = dom (link_root_map m1)"
      "\<forall>x. x \<noteq> ?c \<longrightarrow> link_root_map m1 x = link_root_map m x \<and> link_pose_map m1 x = link_pose_map m x"
      "joint_law E m1 nj"
    by blast
  have "ordered (dom (link_root_map m1)) rest" using Cons.prems(1) m1(2) by simp
  moreover have "distinct (map (\<lambda>nj. child (snd nj)) rest)" using Cons.prems(3) by auto
  moreover have "set (map (\<lambda>nj. child (snd nj)) rest) \<inter> dom (link_root_map m1) = {}"
    using Cons.prems(3,4) m1(2) by auto
  moreover have "\<forall>nj \<in> set rest. jtype (snd nj) = ''fixed'' \<longrightarrow> origin (snd nj) \<noteq> None"
    using Cons.prems(5) by simp
  ultimately obtain m' where
    m': "build_tree E rest m1 = Inr m'"
      "dom (link_root_map m') = dom (link_root_map m1) \<union> set (map (\<lambda>nj. child (snd nj)) rest)"
      "dom (link_pose_map m') = dom (link_root_map m')"
      "\<forall>x \<in> dom (link_root_map m1). link_root_map m' x = link_root_map m1 x \<and> link_pose_map m' x = link_pose_map m1 x"
      "\<forall>nj \<in> set rest. joint_law E m' nj"
    using Cons.IH[OF _ m1(3)] by blast
  have "build_tree E (nj # rest) m = Inr m'" using m1(1) m'(1) by simp
  moreover have "dom (link_root_map m') = dom (link_root_map m) \<union> set (map (\<lambda>nj. child (snd nj)) (nj # rest))"
    using m'(2) m1(2) by auto
  moreover have "\<forall>x \<in> dom (link_root_map m). link_root_map m' x = link_root_map m x \<and> link_pose_map m' x = link_pose_map m x"
    using m'(4) m1(2,4) cfresh by (metis insertCI)
  moreover have "joint_law E m' nj"
    using m1(5) m'(4) m1(2) pin by (intro joint_law_frame[of E m1 nj m']) auto
  ultimately show ?case using m'(3,5) by auto
qed

lemma build_tree_value_error:
  "ordered (dom (link_root_map m)) s \<Longrightarrow> dom (link_pose_map m) = dom (link_root_map m) \<Longrightarrow>
   distinct (map (\<lambda>nj. child (snd nj)) s) \<Longrightarrow> set (map (\<lambda>nj. child (snd nj)) s) \<inter> dom (link_root_map m) = {} \<Longrightarrow>
   \<exists>nj \<in> set s. jtype (snd nj) = ''fixed'' \<and> origin (snd nj) = None \<Longrightarrow>
   build_tree E s m = Inl ValueError"
proof (induction s arbitrary: m)
  case Nil
  then show ?case by simp
next
  case (Cons nj rest)
  from Cons.prems(1) have pin: "parent (snd nj) \<in> dom (link_root_map m)" by simp
  show ?case
  proof (cases "jtype (snd nj) = ''fixed'' \<and> origin (snd nj) = None")
    case True
    with build_step_value_error[OF pin Cons.prems(2), of E] show ?thesis by simp
  next
    case False
    then have og: "jtype (snd nj) = ''fixed'' \<longrightarrow> origin (snd nj) \<noteq> None" by simp
    from build_step_ok[OF pin Cons.prems(2) og, of E] obtain m1 where
      m1: "build_step E nj m = Inr m1"
        "dom (link_root_map m1) = insert (child (snd nj)) (dom (link_root_map m))"
        "dom (link_pose_map m1) = dom (link_root_map m1)"
      by blast
    have "ordered (dom (link_root_map m1)) rest" using Cons.prems(1) m1(2) by simp
    moreover have "distinct (map (\<lambda>nj. child (snd nj)) rest)" using Cons.prems(3) by auto
    moreover have "set (map (\<lambda>nj. child (snd nj)) rest) \<inter> dom (link_root_map m1) = {}"
      using Cons.prems(3,4) m1(2) by auto
    moreover have "\<exists>nj \<in> set rest. jtype (snd nj) = ''fixed'' \<and> origin (snd nj) = None"
      using Cons.prems(5) False by auto
    ultimately have "build_tree E rest m1 = Inl ValueError"
      using Cons.IH[OF _ m1(3)] by blast
    with m1(1) show ?thesis by simp
  qed
qed

lemma joint_law_unique:
  "ordered S s \<Longrightarrow> \<forall>nj \<in> set s. joint_law E m1 nj \<and> joint_law E m2 nj \<Longrightarrow>
   \<forall>x \<in> S. link_root_map m1 x = link_root_map m2 x \<and> link_pose_map m1 x = link_pose_map m2 x \<Longrightarrow>
   \<forall>x \<in> S \<union> set (map (\<lambda>nj. child (snd nj)) s).
      link_root_map m1 x = link_root_map m2 x \<and> link_pose_map m1 x = link_pose_map m2 x"
proof (induction s arbitrary: S)
  case Nil
  then show ?case by simp
next
  case (Cons nj rest)
  let ?c = "child (snd nj)" and ?p = "parent (snd nj)"
  from Cons.prems have pin: "?p \<in> S" and laws: "joint_law E m1 nj" "joint_law E m2 nj" by auto
  from Cons.prems(3) pin have
    "link_root_map m1 ?p = link_root_map m2 ?p" "link_pose_map m1 ?p = link_pose_map m2 ?p" by auto
  with laws have "link_root_map m1 ?c = link_root_map m2 ?c \<and> link_pose_map m1 ?c = link_pose_map m2 ?c"
    by (auto simp: joint_law_def split: if_splits)
  with Cons.prems(3) have
    "\<forall>x \<in> insert ?c S. link_root_map m1 x = link_root_map m2 x \<and> link_pose_map m1 x = link_pose_map m2 x"
    by auto
  from Cons.IH[OF _ _ this] Cons.prems(1,2) show ?case by auto
qed

lemma build_step_canon:
  assumes "canon_inv E m" "child (snd nj) \<notin> dom (link_root_map m)" "build_step E nj m = Inr m'"
  shows "canon_inv E m'"
proof -
  have nr: "\<And>x. link_root_map m x \<noteq> Some (child (snd nj))"
    using assms(1,2) unfolding canon_inv_def by (metis domI)
  show ?thesis
  proof (cases "jtype (snd nj) = ''fixed''")
    case True
    with assms(3) obtain r p jo where rp: "link_root_map m (parent (snd nj)) = Some r"
      "link_pose_map m (parent (snd nj)) = Some p"
      "m' = m\<lparr>link_root_map := (link_root_map m)(child (snd nj) \<mapsto> r),
              link_pose_map := (link_pose_map m)(child (snd nj) \<mapsto> matmul E p jo)\<rparr>"
      by (auto simp: build_step_def Let_def split: option.splits)
    from rp(1) assms(1) have rr: "link_root_map m r = Some r" "link_pose_map m r = Some (eye4 E)"
      unfolding canon_inv_def by blast+
    then have "r \<noteq> child (snd nj)" using assms(2) by auto
    with rp(3) rr assms(1) nr show ?thesis
      unfolding canon_inv_def by (auto split: if_splits)
  next
    case False
    with assms(3) have "m' = m\<lparr>link_root_map := (link_root_map m)(child (snd nj) \<mapsto> child (snd nj)),
              link_pose_map := (link_pose_map m)(child (snd nj) \<mapsto> eye4 E)\<rparr>"
      by (auto simp: build_step_def Let_def)
    with assms(1) nr show ?thesis
      unfolding canon_inv_def by (auto split: if_splits)
  qed
qed

lemma build_step_dom:
  "build_step E nj m = Inr m' \<Longrightarrow> dom (link_root_map m') = insert (child (snd nj)) (dom (link_root_map m))"
  by (auto simp: build_step_def Let_def split: option.splits if_splits)

lemma build_tree_canon:
  "canon_inv E m \<Longrightarrow> distinct (map (\<lambda>nj. child (snd nj)) s) \<Longrightarrow>
   set (map (\<lambda>nj. child (snd nj)) s) \<inter> dom (link_root_map m) = {} \<Longrightarrow>
   build_tree E s m = Inr m' \<Longrightarrow> canon_inv E m'"
proof (induction s arbitrary: m)
  case Nil
  then show ?case by simp
next
  case (Cons nj rest)
  from Cons.prems(4) obtain m1 where m1: "build_step E nj m = Inr m1" "build_tree E rest m1 = Inr m'"
    by (auto split: sum.splits)
  have "canon_inv E m1" using build_step_canon[OF Cons.prems(1) _ m1(1)] Cons.prems(3) by auto
  moreover have "set (map (\<lambda>nj. child (snd nj)) rest) \<inter> dom (link_root_map m1) = {}"
    using Cons.prems(2,3) build_step_dom[OF m1(1)] by auto
  ultimately show ?case using Cons.IH[of m1] Cons.prems(2) m1(2) by simp
qed

lemma sorted_is_permutation:
  assumes inv: "sort_inv js b (c, s)" and len: "length s = length js" and dn: "distinct (map fst js)"
  shows "set s = set js" "distinct s"
proof -
  from inv show d: "distinct s" by (auto simp: sort_inv_def distinct_map)
  from inv have sub: "set s \<subseteq> set js" by (simp add: sort_inv_def)
  from dn have "distinct js" by (simp add: distinct_map)
  then have "card (set js) = length js" by (simp add: distinct_card)
  moreover have "card (set s) = length s" using d by (simp add: distinct_card)
  ultimately show "set s = set js" using sub len by (simp add: card_subset_eq)
qed

text \<open>The scan on a well-formed tree: it returns, and what it returns.\<close>

lemma sort_joints_wf:
  assumes wf: "wf_tree k robot"
  shows "\<exists>s. sort_joints (joint_map robot) ([base_link robot], []) = Some s \<and>
     set s = set (joint_map robot) \<and> distinct s \<and> ordered {base_link robot} s \<and>
     distinct (map (\<lambda>nj. child (snd nj)) s)"
proof -
  let ?js = "joint_map robot" and ?b = "base_link robot"
  from wf have dn: "distinct (map fst ?js)"
    and res: "\<forall>nj \<in> set ?js. resolves k ?js ?b (parent (snd nj))"
    and dc: "distinct (map (\<lambda>nj. child (snd nj)) ?js)"
    by (auto simp: wf_tree_def all_resolve_def)
  have "sort_inv ?js ?b ([?b], [])" by (simp add: sort_inv_def)
  from sort_joints_terminates[OF dn res this] obtain s c where
    s: "sort_joints ?js ([?b], []) = Some s" "length s = length ?js" "sort_inv ?js ?b (c, s)"
    by blast
  from sorted_is_permutation[OF s(3) s(2) dn] have perm: "set s = set ?js" "distinct s" .
  from s(3) have ord: "ordered {?b} s" by (simp add: sort_inv_def)
  have "inj_on (\<lambda>nj. child (snd nj)) (set ?js)" using dc by (simp add: distinct_map)
  with perm have "distinct (map (\<lambda>nj. child (snd nj)) s)" by (simp add: distinct_map)
  with s(1) perm ord show ?thesis by blast
qed

lemma collapse_links_wf:
  assumes wf: "wf_tree k robot" and og: "fixed_joints_have_origin robot"
  shows "\<exists>s m. sort_joints (joint_map robot) ([base_link robot], []) = Some s \<and>
     set s = set (joint_map robot) \<and> distinct s \<and> ordered {base_link robot} s \<and>
     collapse_links E robot True = Some (Inr m) \<and>
     dom (link_root_map m) = insert (base_link robot) (set (map (\<lambda>nj. child (snd nj)) (joint_map robot))) \<and>
     dom (link_pose_map m) = dom (link_root_map m) \<and>
     link_root_map m (base_link robot) = Some (base_link robot) \<and>
     link_pose_map m (base_link robot) = Some (eye4 E) \<and>
     (\<forall>nj \<in> set (joint_map robot). joint_law E m nj) \<and> canon_inv E m"
proof -
  let ?js = "joint_map robot" and ?b = "base_link robot"
  from wf have bc: "?b \<notin> set (map (\<lambda>nj. child (snd nj)) ?js)"
    by (auto simp: wf_tree_def)
  from sort_joints_wf[OF wf] obtain s where
    s: "sort_joints ?js ([?b], []) = Some s"
    and perm: "set s = set ?js" "distinct s"
    and ord: "ordered {?b} s"
    and dcs: "distinct (map (\<lambda>nj. child (snd nj)) s)"
    by blast
  have cs: "set (map (\<lambda>nj. child (snd nj)) s) = set (map (\<lambda>nj. child (snd nj)) ?js)"
    using perm(1) by simp
  let ?m0 = "init_maps E robot"
  have d0: "dom (link_root_map ?m0) = {?b}" "dom (link_pose_map ?m0) = dom (link_root_map ?m0)"
    by (simp_all add: init_maps_def)
  have "ordered (dom (link_root_map ?m0)) s" using ord d0 by simp
  moreover have "set (map (\<lambda>nj. child (snd nj)) s) \<inter> dom (link_root_map ?m0) = {}"
    using bc cs d0 by auto
  moreover have "\<forall>nj \<in> set s. jtype (snd nj) = ''fixed'' \<longrightarrow> origin (snd nj) \<noteq> None"
    using og perm(1) by (simp add: fixed_joints_have_origin_def)
  ultimately obtain m where
    m: "build_tree E s ?m0 = Inr m"
      "dom (link_root_map m) = dom (link_root_map ?m0) \<union> set (map (\<lambda>nj. child (snd nj)) s)"
      "dom (link_pose_map m) = dom (link_root_map m)"
      "\<forall>x \<in> dom (link_root_map ?m0). link_root_map m x = link_root_map ?m0 x \<and> link_pose_map m x = link_pose_map ?m0 x"
      "\<forall>nj \<in> set s. joint_law E m nj"
    using build_tree_ok[OF _ d0(2) dcs, of E] by blast
  have "canon_inv E ?m0" by (simp add: canon_inv_def init_maps_def)
  then have ci: "canon_inv E m"
    using build_tree_canon[OF _ dcs _ m(1)] bc cs d0 by auto
  have "collapse_links E robot True = Some (Inr m)"
    using s m(1) by (simp add: collapse_links_def)
  moreover have "link_root_map m ?b = Some ?b" "link_pose_map m ?b = Some (eye4 E)"
    using m(4) d0 by (simp_all add: init_maps_def)
  moreover have "dom (link_root_map m) = insert ?b (set (map (\<lambda>nj. child (snd nj)) ?js))"
    using m(2) d0 cs by simp
  ultimately show ?thesis using s perm ord m(3,5) ci by blast
qed

text \<open>A fixed joint without an origin stops the build at line 52.\<close>

lemma collapse_links_value_error:
  assumes wf: "wf_tree k robot" and og: "\<not> fixed_joints_have_origin robot"
  shows "collapse_links E robot True = Some (Inl ValueError)"
proof -
  let ?js = "joint_map robot" and ?b = "base_link robot"
  from wf have bc: "?b \<notin> set (map (\<lambda>nj. child (snd nj)) ?js)"
    by (auto simp: wf_tree_def)
  from sort_joints_wf[OF wf] obtain s where
    s: "sort_joints ?js ([?b], []) = Some s"
    and perm: "set s = set ?js" "distinct s"
    and ord: "ordered {?b} s"
    and dcs: "distinct (map (\<lambda>nj. child (snd nj)) s)"
    by blast
  have cs: "set (map (\<lambda>nj. child (snd nj)) s) = set (map (\<lambda>nj. child (snd nj)) ?js)"
    using perm(1) by simp
  let ?m0 = "init_maps E robot"
  have d0: "dom (link_root_map ?m0) = {?b}" "dom (link_pose_map ?m0) = dom (link_root_map ?m0)"
    by (simp_all add: init_maps_def)
  have "ordered (dom (link_root_map ?m0)) s" using ord d0 by simp
  moreover have "set (map (\<lambda>nj. child (snd nj)) s) \<inter> dom (link_root_map ?m0) = {}"
    using bc cs d0 by auto
  moreover have "\<exists>nj \<in> set s. jtype (snd nj) = ''fixed'' \<and> origin (snd nj) = None"
    using og perm(1) by (auto simp: fixed_joints_have_origin_def)
  ultimately have "build_tree E s ?m0 = Inl ValueError"
    using build_tree_value_error[OF _ d0(2) dcs, of E] by blast
  with s show ?thesis by (simp add: collapse_links_def)
qed

lemma originless_joint_raises:
  "wf_tree 1 originless_robot \<and>
   load_urdf_with_yourdfpy exact_env originless_robot demo_heap True False False
     = Some (Inl ValueError)"
proof -
  have w: "wf_tree 1 originless_robot" by code_simp
  have "\<not> fixed_joints_have_origin originless_robot" by code_simp
  from collapse_links_value_error[OF w this, of exact_env] w show ?thesis
    by (simp add: load_urdf_with_yourdfpy_def)
qed

lemma collapse_links_outcome:
  assumes wf: "wf_tree k robot"
  shows "if fixed_joints_have_origin robot
         then \<exists>m. collapse_links E robot True = Some (Inr m)
         else collapse_links E robot True = Some (Inl ValueError)"
  using collapse_links_wf[OF wf, of E] collapse_links_value_error[OF wf, of E]
  by (cases "fixed_joints_have_origin robot") auto

text \<open>What holds of the maps whenever the collapse of a well-formed tree returns them.\<close>

lemma collapse_links_returned:
  assumes wf: "wf_tree k robot" and r: "collapse_links E robot True = Some (Inr m)"
  shows "fixed_joints_have_origin robot \<and>
     dom (link_root_map m) = insert (base_link robot) (set (map (\<lambda>nj. child (snd nj)) (joint_map robot))) \<and>
     dom (link_pose_map m) = dom (link_root_map m) \<and>
     link_root_map m (base_link robot) = Some (base_link robot) \<and>
     link_pose_map m (base_link robot) = Some (eye4 E) \<and>
     (\<forall>nj \<in> set (joint_map robot). joint_law E m nj) \<and> canon_inv E m"
proof -
  have og: "fixed_joints_have_origin robot"
  proof (rule ccontr)
    assume "\<not> fixed_joints_have_origin robot"
    from collapse_links_value_error[OF wf this, of E] r show False by simp
  qed
  from collapse_links_wf[OF wf og, of E] r og show ?thesis by auto
qed

lemma resolves_cong:
  "set js = set js' \<Longrightarrow> resolves k js b l = resolves k js' b l"
  by (induction k arbitrary: l) auto

lemma wf_tree_permute:
  assumes "wf_tree k robot" "mset js' = mset (joint_map robot)"
  shows "wf_tree k (robot\<lparr>joint_map := js'\<rparr>)"
proof -
  from assms(2) have se: "set js' = set (joint_map robot)" by (rule mset_eq_setD)
  have "distinct (map fst js') = distinct (map fst (joint_map robot))"
    by (rule mset_eq_imp_distinct_iff) (simp add: assms(2))
  moreover have "distinct (map (\<lambda>nj. child (snd nj)) js') = distinct (map (\<lambda>nj. child (snd nj)) (joint_map robot))"
    by (rule mset_eq_imp_distinct_iff) (simp add: assms(2))
  ultimately show ?thesis using assms(1) se
    using resolves_cong[OF se]
    by (simp add: wf_tree_def all_resolve_def)
qed

lemma fixed_joints_have_origin_permute:
  assumes "mset js' = mset (joint_map robot)"
  shows "fixed_joints_have_origin (robot\<lparr>joint_map := js'\<rparr>) = fixed_joints_have_origin robot"
  using mset_eq_setD[OF assms] by (simp add: fixed_joints_have_origin_def)

section \<open>Properties of the collapse\<close>

text \<open>
  \<^bold>\<open>C1\<close> (composition law). With \<^verbatim>\<open>collapse_fixed_joints\<close> enabled and a well-formed tree, the
  collapse returns the two maps when every fixed joint has an origin (and raises
  \<^verbatim>\<open>ValueError\<close> otherwise); in the maps it returns, for every fixed joint the pose recorded for
  the child is the product, as \<^verbatim>\<open>@\<close> computes it, of the pose recorded for the parent with the
  joint's origin.
\<close>

theorem fixed_joint_pose_composition:
  assumes "wf_tree k robot"
  shows "(if fixed_joints_have_origin robot
          then \<exists>m. collapse_links E robot True = Some (Inr m)
          else collapse_links E robot True = Some (Inl ValueError)) \<and>
         (\<forall>m. collapse_links E robot True = Some (Inr m) \<longrightarrow>
            (\<forall>nj \<in> set (joint_map robot). jtype (snd nj) = ''fixed'' \<longrightarrow>
               (\<exists>p jo. origin (snd nj) = Some jo \<and>
                  link_pose_map m (parent (snd nj)) = Some p \<and>
                  link_pose_map m (child (snd nj)) = Some (matmul E p jo))))"
proof -
  have "\<exists>p jo. origin (snd nj) = Some jo \<and>
          link_pose_map m (parent (snd nj)) = Some p \<and>
          link_pose_map m (child (snd nj)) = Some (matmul E p jo)"
    if r: "collapse_links E robot True = Some (Inr m)"
      and nj: "nj \<in> set (joint_map robot)" "jtype (snd nj) = ''fixed''" for m nj
  proof -
    from collapse_links_returned[OF assms r] nj(1) have "joint_law E m nj" by blast
    with nj(2) show ?thesis by (auto simp: joint_law_def)
  qed
  with collapse_links_outcome[OF assms, of E] show ?thesis by blast
qed

theorem fixed_joint_pose_composition_witness:
  "wf_tree 3 scenario_A \<and> fixed_joints_have_origin scenario_A \<and>
   (\<exists>m p. collapse_links exact_env scenario_A True = Some (Inr m) \<and>
      link_pose_map m ''L1'' = Some p \<and>
      link_pose_map m ''L2'' = Some (mat_mul p (translation 0 2 0)))"
proof -
  have h: "wf_tree 3 scenario_A" by code_simp
  have g: "fixed_joints_have_origin scenario_A" by code_simp
  let ?j2 = "(''j2'', \<lparr>parent = ''L1'', child = ''L2'', jtype = ''fixed'', origin = Some (translation 0 2 0)\<rparr>)"
  have mem: "?j2 \<in> set (joint_map scenario_A)" by (simp add: scenario_A_def)
  note t = fixed_joint_pose_composition[OF h, of exact_env]
  from t g obtain m where m: "collapse_links exact_env scenario_A True = Some (Inr m)" by auto
  from t m mem have "jtype (snd ?j2) = ''fixed'' \<longrightarrow>
          (\<exists>p jo. origin (snd ?j2) = Some jo \<and>
               link_pose_map m (parent (snd ?j2)) = Some p \<and>
               link_pose_map m (child (snd ?j2)) = Some (matmul exact_env p jo))"
    by blast
  then have "\<exists>p. link_pose_map m ''L1'' = Some p \<and>
                 link_pose_map m ''L2'' = Some (mat_mul p (translation 0 2 0))"
    by (simp add: exact_env_def)
  with h g m show ?thesis by blast
qed

text \<open>
  \<^bold>\<open>C2\<close> (idempotence). With collapsing enabled and a well-formed tree, the collapse returns the
  two maps when every fixed joint has an origin (and raises \<^verbatim>\<open>ValueError\<close> otherwise); in the
  map it returns, the root recorded for any link is recorded as its own root.
\<close>

theorem collapse_root_idempotent:
  assumes "wf_tree k robot"
  shows "(if fixed_joints_have_origin robot
          then \<exists>m. collapse_links E robot True = Some (Inr m)
          else collapse_links E robot True = Some (Inl ValueError)) \<and>
         (\<forall>m. collapse_links E robot True = Some (Inr m) \<longrightarrow>
            (\<forall>x r. link_root_map m x = Some r \<longrightarrow> link_root_map m r = Some r))"
proof -
  have "link_root_map m r = Some r"
    if r: "collapse_links E robot True = Some (Inr m)" and x: "link_root_map m x = Some r" for m x r
  proof -
    from collapse_links_returned[OF assms r] have "canon_inv E m" by blast
    with x show ?thesis unfolding canon_inv_def by blast
  qed
  with collapse_links_outcome[OF assms, of E] show ?thesis by blast
qed

theorem collapse_root_idempotent_witness:
  "wf_tree 3 scenario_A \<and> fixed_joints_have_origin scenario_A \<and>
   (\<exists>m. collapse_links exact_env scenario_A True = Some (Inr m) \<and>
      (\<forall>x r. link_root_map m x = Some r \<longrightarrow> link_root_map m r = Some r))"
proof -
  have h: "wf_tree 3 scenario_A" by code_simp
  have g: "fixed_joints_have_origin scenario_A" by code_simp
  note t = collapse_root_idempotent[OF h, of exact_env]
  from t g obtain m where m: "collapse_links exact_env scenario_A True = Some (Inr m)" by auto
  with t h g show ?thesis by blast
qed

text \<open>
  \<^bold>\<open>C3\<close> (identity at root). With collapsing enabled and a well-formed tree, the collapse returns
  the two maps when every fixed joint has an origin (and raises \<^verbatim>\<open>ValueError\<close> otherwise); in
  the maps it returns, the base link and the child of every joint that is not fixed are their
  own roots and have the identity pose, and the root recorded for any link has the identity
  pose.
\<close>

theorem canonical_root_identity_pose:
  assumes "wf_tree k robot"
  shows "(if fixed_joints_have_origin robot
          then \<exists>m. collapse_links E robot True = Some (Inr m)
          else collapse_links E robot True = Some (Inl ValueError)) \<and>
         (\<forall>m. collapse_links E robot True = Some (Inr m) \<longrightarrow>
            link_root_map m (base_link robot) = Some (base_link robot) \<and>
            link_pose_map m (base_link robot) = Some (eye4 E) \<and>
            (\<forall>nj \<in> set (joint_map robot). jtype (snd nj) \<noteq> ''fixed'' \<longrightarrow>
               link_root_map m (child (snd nj)) = Some (child (snd nj)) \<and>
               link_pose_map m (child (snd nj)) = Some (eye4 E)) \<and>
            (\<forall>x r. link_root_map m x = Some r \<longrightarrow> link_pose_map m r = Some (eye4 E)))"
proof -
  have "link_root_map m (base_link robot) = Some (base_link robot) \<and>
        link_pose_map m (base_link robot) = Some (eye4 E) \<and>
        (\<forall>nj \<in> set (joint_map robot). jtype (snd nj) \<noteq> ''fixed'' \<longrightarrow>
           link_root_map m (child (snd nj)) = Some (child (snd nj)) \<and>
           link_pose_map m (child (snd nj)) = Some (eye4 E)) \<and>
        (\<forall>x r. link_root_map m x = Some r \<longrightarrow> link_pose_map m r = Some (eye4 E))"
    if r: "collapse_links E robot True = Some (Inr m)" for m
  proof -
    from collapse_links_returned[OF assms r] have
      m: "link_root_map m (base_link robot) = Some (base_link robot)"
        "link_pose_map m (base_link robot) = Some (eye4 E)"
        "\<forall>nj \<in> set (joint_map robot). joint_law E m nj" "canon_inv E m"
      by blast+
    have "link_root_map m (child (snd nj)) = Some (child (snd nj)) \<and>
          link_pose_map m (child (snd nj)) = Some (eye4 E)"
      if "nj \<in> set (joint_map robot)" "jtype (snd nj) \<noteq> ''fixed''" for nj
    proof -
      from m(3) that(1) have "joint_law E m nj" by blast
      with that(2) show ?thesis by (auto simp: joint_law_def)
    qed
    moreover have "\<forall>x r. link_root_map m x = Some r \<longrightarrow> link_pose_map m r = Some (eye4 E)"
      using m(4) unfolding canon_inv_def by blast
    ultimately show ?thesis using m(1,2) by blast
  qed
  with collapse_links_outcome[OF assms, of E] show ?thesis by blast
qed

theorem canonical_root_identity_pose_witness:
  "wf_tree 3 scenario_A \<and> fixed_joints_have_origin scenario_A \<and>
   (\<exists>m. collapse_links exact_env scenario_A True = Some (Inr m) \<and>
      link_pose_map m ''B'' = Some eye_exact \<and>
      link_root_map m ''L3'' = Some ''L3'' \<and> link_pose_map m ''L3'' = Some eye_exact)"
proof -
  have h: "wf_tree 3 scenario_A" by code_simp
  have g: "fixed_joints_have_origin scenario_A" by code_simp
  let ?j3 = "(''j3'', \<lparr>parent = ''L2'', child = ''L3'', jtype = ''revolute'', origin = Some (translation 0 0 3)\<rparr>)"
  have mem: "?j3 \<in> set (joint_map scenario_A)" by (simp add: scenario_A_def)
  note t = canonical_root_identity_pose[OF h, of exact_env]
  from t g obtain m where m: "collapse_links exact_env scenario_A True = Some (Inr m)" by auto
  from t m have
    b: "link_pose_map m (base_link scenario_A) = Some (eye4 exact_env)"
    and a: "\<forall>nj \<in> set (joint_map scenario_A). jtype (snd nj) \<noteq> ''fixed'' \<longrightarrow>
          link_root_map m (child (snd nj)) = Some (child (snd nj)) \<and>
          link_pose_map m (child (snd nj)) = Some (eye4 exact_env)"
    by blast+
  from a mem have "jtype (snd ?j3) \<noteq> ''fixed'' \<longrightarrow>
          link_root_map m (child (snd ?j3)) = Some (child (snd ?j3)) \<and>
          link_pose_map m (child (snd ?j3)) = Some (eye4 exact_env)"
    by blast
  then have "link_root_map m ''L3'' = Some ''L3'' \<and> link_pose_map m ''L3'' = Some eye_exact"
    by (simp add: exact_env_def)
  moreover from b have "link_pose_map m ''B'' = Some eye_exact"
    by (simp add: exact_env_def scenario_A_def)
  ultimately show ?thesis using h g m by blast
qed

text \<open>
  \<^bold>\<open>C5\<close> (order independence). With collapsing enabled and a well-formed tree, listing the joints
  in another order gives the same outcome: the same two maps when every fixed joint has an
  origin, the same \<^verbatim>\<open>ValueError\<close> otherwise. The scan returns the joints, each exactly once, in
  an order where every parent is the base or the child of an earlier joint.
\<close>

theorem collapse_order_independent:
  assumes wf: "wf_tree k robot" and perm: "mset js' = mset (joint_map robot)"
  shows "collapse_links E (robot\<lparr>joint_map := js'\<rparr>) True = collapse_links E robot True \<and>
         (if fixed_joints_have_origin robot
          then \<exists>m. collapse_links E robot True = Some (Inr m)
          else collapse_links E robot True = Some (Inl ValueError)) \<and>
         (\<exists>s. sort_joints (joint_map robot) ([base_link robot], []) = Some s \<and>
               mset s = mset (joint_map robot) \<and> ordered {base_link robot} s)"
proof -
  let ?r' = "robot\<lparr>joint_map := js'\<rparr>" and ?b = "base_link robot"
  let ?ch = "set (map (\<lambda>nj. child (snd nj)) (joint_map robot))"
  from perm have se: "set js' = set (joint_map robot)" by (rule mset_eq_setD)
  note wf' = wf_tree_permute[OF wf perm]
  note og' = fixed_joints_have_origin_permute[OF perm]
  have same: "collapse_links E ?r' True = collapse_links E robot True"
  proof (cases "fixed_joints_have_origin robot")
    case False
    with collapse_links_value_error[OF wf, of E] collapse_links_value_error[OF wf', of E] og'
    show ?thesis by simp
  next
    case True
    from collapse_links_wf[OF wf True, of E] obtain s m where
      m: "set s = set (joint_map robot)" "ordered {?b} s" "collapse_links E robot True = Some (Inr m)"
        "dom (link_root_map m) = insert ?b ?ch" "dom (link_pose_map m) = dom (link_root_map m)"
        "link_root_map m ?b = Some ?b" "link_pose_map m ?b = Some (eye4 E)"
        "\<forall>nj \<in> set (joint_map robot). joint_law E m nj"
      by blast
    from True og' have "fixed_joints_have_origin ?r'" by simp
    from collapse_links_wf[OF wf' this, of E] se obtain m' where
      m': "collapse_links E ?r' True = Some (Inr m')"
        "dom (link_root_map m') = insert ?b ?ch" "dom (link_pose_map m') = dom (link_root_map m')"
        "link_root_map m' ?b = Some ?b" "link_pose_map m' ?b = Some (eye4 E)"
        "\<forall>nj \<in> set (joint_map robot). joint_law E m' nj"
      by auto
    have agree: "\<forall>x \<in> {?b} \<union> set (map (\<lambda>nj. child (snd nj)) s).
        link_root_map m' x = link_root_map m x \<and> link_pose_map m' x = link_pose_map m x"
    proof (rule joint_law_unique[OF m(2)])
      show "\<forall>nj \<in> set s. joint_law E m' nj \<and> joint_law E m nj"
        using m(1,8) m'(6) by blast
      show "\<forall>x \<in> {?b}. link_root_map m' x = link_root_map m x \<and> link_pose_map m' x = link_pose_map m x"
        using m(6,7) m'(4,5) by simp
    qed
    have cs: "set (map (\<lambda>nj. child (snd nj)) s) = ?ch" using m(1) by simp
    have agree': "\<forall>x \<in> insert ?b ?ch.
        link_root_map m' x = link_root_map m x \<and> link_pose_map m' x = link_pose_map m x"
      using agree unfolding cs by simp
    have "link_root_map m' x = link_root_map m x" for x
    proof (cases "x \<in> insert ?b ?ch")
      case True
      with agree' show ?thesis by blast
    next
      case False
      then have "link_root_map m' x = None" "link_root_map m x = None"
        using m(4) m'(2) by (metis domIff)+
      then show ?thesis by simp
    qed
    moreover have "link_pose_map m' x = link_pose_map m x" for x
    proof (cases "x \<in> insert ?b ?ch")
      case True
      with agree' show ?thesis by blast
    next
      case False
      then have "link_pose_map m' x = None" "link_pose_map m x = None"
        using m(4,5) m'(2,3) by (metis domIff)+
      then show ?thesis by simp
    qed
    ultimately have "m' = m" by (intro collapse_maps.equality ext) auto
    with m(3) m'(1) show ?thesis by simp
  qed
  from sort_joints_wf[OF wf] obtain s where
    s: "sort_joints (joint_map robot) ([?b], []) = Some s" "set s = set (joint_map robot)"
      "distinct s" "ordered {?b} s"
    by blast
  have "mset s = mset (joint_map robot)"
    using s(2,3) wf by (auto simp: wf_tree_def all_resolve_def distinct_map intro: set_eq_iff_mset_eq_distinct[THEN iffD1])
  with s(1,4) have "\<exists>s. sort_joints (joint_map robot) ([?b], []) = Some s \<and>
               mset s = mset (joint_map robot) \<and> ordered {?b} s"
    by blast
  with same collapse_links_outcome[OF wf, of E] show ?thesis by blast
qed

theorem collapse_order_independent_witness:
  "wf_tree 3 scenario_A \<and> mset (rev (joint_map scenario_A)) = mset (joint_map scenario_A) \<and>
   fixed_joints_have_origin scenario_A \<and>
   collapse_links exact_env (scenario_A\<lparr>joint_map := rev (joint_map scenario_A)\<rparr>) True
     = collapse_links exact_env scenario_A True \<and>
   (\<exists>m. collapse_links exact_env scenario_A True = Some (Inr m))"
proof -
  have h: "wf_tree 3 scenario_A" by code_simp
  have g: "fixed_joints_have_origin scenario_A" by code_simp
  have p: "mset (rev (joint_map scenario_A)) = mset (joint_map scenario_A)" by simp
  note t = collapse_order_independent[OF h p, of exact_env]
  from t g have "\<exists>m. collapse_links exact_env scenario_A True = Some (Inr m)" by auto
  with t h g p show ?thesis by blast
qed

section \<open>A scan that never finishes\<close>

lemma scan_pass_stuck:
  "stuck js b st \<Longrightarrow> set xs \<subseteq> set js \<Longrightarrow> stuck js b (scan_pass xs st)"
proof (induction xs st rule: scan_pass.induct)
  case (1 st)
  then show ?case by simp
next
  case (2 joint_name joint_info rest link_cache joint_sorted)
  show ?case
  proof (cases "joint_name \<in> set (map fst joint_sorted)")
    case True
    with 2 show ?thesis by simp
  next
    case unsorted: False
    show ?thesis
    proof (cases "parent joint_info \<in> set link_cache")
      case True
      with "2.prems"(1) obtain k where k: "resolves k js b (parent joint_info)"
        by (auto simp: stuck_def)
      have mem: "(joint_name, joint_info) \<in> set js" using "2.prems"(2) by simp
      then have "resolves (Suc k) js b (child joint_info)" using k by force
      then have "\<exists>k. resolves k js b (child joint_info)" by blast
      then have "stuck js b (link_cache @ [child joint_info], joint_sorted @ [(joint_name, joint_info)])"
        using "2.prems"(1) unsorted k mem by (auto simp: stuck_def)
      with 2 unsorted True show ?thesis by simp
    next
      case False
      with 2 unsorted show ?thesis by simp
    qed
  qed
qed

lemma stuck_unfinished:
  assumes st: "stuck js b st" and nj: "nj \<in> set js" and un: "\<forall>k. \<not> resolves k js b (parent (snd nj))"
  shows "length (snd st) < length js"
proof -
  from st un have "nj \<notin> set (snd st)" by (auto simp: stuck_def)
  with st nj have "set (snd st) \<subset> set js" by (auto simp: stuck_def)
  then have "card (set (snd st)) < card (set js)" by (simp add: psubset_card_mono)
  moreover have "distinct (snd st)" using st by (auto simp: stuck_def distinct_map)
  then have "card (set (snd st)) = length (snd st)" by (simp add: distinct_card)
  moreover have "card (set js) \<le> length js" by (rule card_length)
  ultimately show ?thesis by simp
qed

lemma sort_joints_diverges:
  assumes nj: "nj \<in> set js" and un: "\<forall>k. \<not> resolves k js b (parent (snd nj))"
    and st: "stuck js b st"
  shows "sort_joints js st = None"
proof (rule ccontr)
  assume "sort_joints js st \<noteq> None"
  then obtain y where y: "sort_joints js st = Some y" by auto
  let ?Q = "\<lambda>a s. nj \<in> set a \<and> (\<forall>k. \<not> resolves k a b (parent (snd nj))) \<and> stuck a b s"
  have "\<not> ?Q js st"
  proof (rule sort_joints.raw_induct[where P = "\<lambda>a s r. \<not> ?Q a s", OF _ y])
    fix f a s r
    assume IH: "\<And>a' s' r'. f a' s' = Some r' \<Longrightarrow> \<not> ?Q a' s'"
      and eq: "(if length (snd s) < length a then f a (scan_pass a s) else Some (snd s)) = Some r"
    show "\<not> ?Q a s"
    proof
      assume q: "?Q a s"
      then have "length (snd s) < length a" using stuck_unfinished by blast
      with eq have "f a (scan_pass a s) = Some r" by simp
      from IH[OF this] q show False using scan_pass_stuck[of a b s a] by simp
    qed
  qed
  with nj un st show False by simp
qed

lemma resolves_dangling: "\<not> resolves k (joint_map dangling_robot) ''B'' ''ghost''"
  by (induction k) (simp_all add: dangling_robot_def)

text \<open>
  \<^bold>\<open>C4\<close> (malformed tree). The claim is that a joint whose parent is never resolved makes the load
  abort with an error. On scenario D the scan sorts nothing in a pass and the loop of line 35
  is entered again in the same state: the call never returns, with an error or otherwise.
\<close>

theorem malformed_tree_never_returns:
  "load_urdf_with_yourdfpy exact_env dangling_robot demo_heap True False False = None"
proof -
  let ?js = "joint_map dangling_robot"
  have "stuck ?js ''B'' ([''B''], [])"
    unfolding stuck_def by (auto intro: exI[of _ 0])
  moreover have "hd ?js \<in> set ?js" "\<forall>k. \<not> resolves k ?js ''B'' (parent (snd (hd ?js)))"
    using resolves_dangling by (simp_all add: dangling_robot_def)
  ultimately have "sort_joints ?js ([''B''], []) = None"
    using sort_joints_diverges by blast
  moreover have "base_link dangling_robot = ''B''" by (simp add: dangling_robot_def)
  ultimately show ?thesis
    by (simp add: load_urdf_with_yourdfpy_def collapse_links_def)
qed

section \<open>Asset keys as strings\<close>











section \<open>Asset indices\<close>












section \<open>Unsupported geometry aborts the load\<close>

lemma unsupported_visual_fails:
  assumes "unsupported E v"
  shows "\<exists>e. load_visual E cfj cap mm m ln v st = Inl e"
proof (cases "mesh (visual_geometry v)")
  case None
  with assms have "geometry_entries E cap (visual_geometry v) c vp h = Inl NotImplementedError" for c vp h
    by (simp add: unsupported_def geometry_entries_def primitive_entries_def)
  then show ?thesis
    by (auto simp: load_visual_def Let_def split: sum.splits)
next
  case (Some msh)
  with assms have "geometry_entries E cap (visual_geometry v) c vp h = Inl NotImplementedError" for c vp h
    by (simp add: unsupported_def supported_extension_def geometry_entries_def mesh_entries_def Let_def)
  then show ?thesis
    by (auto simp: load_visual_def Let_def split: sum.splits)
qed

lemma load_visuals_fails:
  "v \<in> set vs \<Longrightarrow> (\<And>st. \<exists>e. load_visual E cfj cap mm m ln v st = Inl e) \<Longrightarrow>
   \<exists>e. load_visuals E cfj cap mm m ln vs st = Inl e"
proof (induction vs arbitrary: st)
  case Nil
  then show ?case by simp
next
  case (Cons a vs)
  show ?case
  proof (cases "load_visual E cfj cap mm m ln a st")
    case (Inl e)
    then show ?thesis by simp
  next
    case (Inr st1)
    with Cons.prems(2)[of st] have "a \<noteq> v" by auto
    with Cons.prems(1) have "v \<in> set vs" by simp
    from Cons.IH[OF this Cons.prems(2), of st1] Inr show ?thesis by simp
  qed
qed

lemma load_links_fails:
  "(ln, li) \<in> set ls \<Longrightarrow> (\<And>st. \<exists>e. load_visuals E cfj cap mm m ln (visuals li) st = Inl e) \<Longrightarrow>
   \<exists>e. load_links E cfj cap mm m ls st = Inl e"
proof (induction ls arbitrary: st)
  case Nil
  then show ?case by simp
next
  case (Cons l ls)
  obtain ln' li' where l: "l = (ln', li')" by (cases l)
  show ?case
  proof (cases "load_visuals E cfj cap mm m ln' (visuals li') st")
    case (Inl e)
    with l show ?thesis by simp
  next
    case (Inr st1)
    with Cons.prems(2)[of st] have "(ln', li') \<noteq> (ln, li)" by auto
    with Cons.prems(1) l have "(ln, li) \<in> set ls" by auto
    from Cons.IH[OF this Cons.prems(2), of st1] Inr l show ?thesis by simp
  qed
qed

lemma collapse_links_returns:
  assumes "cfj \<longrightarrow> all_resolve k robot"
  shows "\<exists>r. collapse_links E robot cfj = Some r"
proof (cases cfj)
  case False
  then show ?thesis by (simp add: collapse_links_def)
next
  case True
  with assms have dn: "distinct (map fst (joint_map robot))"
    and res: "\<forall>nj \<in> set (joint_map robot).
       resolves k (joint_map robot) (base_link robot) (parent (snd nj))"
    by (auto simp: all_resolve_def)
  have "sort_inv (joint_map robot) (base_link robot) ([base_link robot], [])"
    by (simp add: sort_inv_def)
  from sort_joints_terminates[OF dn res this] True show ?thesis
    by (auto simp: collapse_links_def)
qed

text \<open>
  \<^bold>\<open>C9\<close> (unsupported geometry). If some visual of some link is a mesh whose file name ends in
  none of obj, dae, stl, glb (in any case), or has no mesh, sphere, box or cylinder, then the
  load returns no resource; and whenever the call returns at all (collapsing is off, or every
  joint's parent resolves to the base) it returns an error.
\<close>

theorem unsupported_geometry_aborts_load:
  assumes "(ln, li) \<in> set (link_map robot)" and "v \<in> set (visuals li)" and "unsupported E v"
  shows "(\<forall>r. load_urdf_with_yourdfpy E robot h cfj cap umm \<noteq> Some (Inr r)) \<and>
         ((cfj \<longrightarrow> all_resolve k robot) \<longrightarrow>
            (\<exists>e. load_urdf_with_yourdfpy E robot h cfj cap umm = Some (Inl e)))"
proof -
  let ?mm = "if \<not> umm then material_map robot else []"
  have links: "\<exists>e. load_links E cfj cap ?mm m (link_map robot) (initial_state h) = Inl e" for m
  proof -
    have "\<exists>e. load_visuals E cfj cap ?mm m ln (visuals li) st = Inl e" for st
      using load_visuals_fails[OF assms(2)] unsupported_visual_fails[OF assms(3)] by blast
    from load_links_fails[OF assms(1) this] show ?thesis .
  qed
  have after: "\<exists>e. load_urdf_with_yourdfpy E robot h cfj cap umm = Some (Inl e)"
    if r: "collapse_links E robot cfj = Some r" for r
  proof (cases r)
    case (Inl e)
    with r show ?thesis by (simp add: load_urdf_with_yourdfpy_def)
  next
    case (Inr m)
    from links[of m] obtain e where
      "load_links E cfj cap ?mm m (link_map robot) (initial_state h) = Inl e" by blast
    with r Inr show ?thesis by (simp add: load_urdf_with_yourdfpy_def Let_def)
  qed
  have "load_urdf_with_yourdfpy E robot h cfj cap umm \<noteq> Some (Inr r)" for r
  proof (cases "collapse_links E robot cfj")
    case None
    then show ?thesis by (simp add: load_urdf_with_yourdfpy_def)
  next
    case (Some c)
    from after[OF this] show ?thesis by auto
  qed
  moreover have "\<exists>e. load_urdf_with_yourdfpy E robot h cfj cap umm = Some (Inl e)"
    if "cfj \<longrightarrow> all_resolve k robot"
  proof -
    from collapse_links_returns[OF that, of E] obtain r where
      "collapse_links E robot cfj = Some r" by blast
    from after[OF this] show ?thesis .
  qed
  ultimately show ?thesis by blast
qed

theorem unsupported_geometry_aborts_load_witness:
  "unsupported exact_env (mesh_visual ''arm.ply'') \<and> all_resolve 1 (mesh_robot ''arm.ply'') \<and>
   (\<exists>e. load_urdf_with_yourdfpy exact_env (mesh_robot ''arm.ply'') demo_heap True False False
          = Some (Inl e))"
proof -
  have u: "unsupported exact_env (mesh_visual ''arm.ply'')" by code_simp
  have a: "all_resolve 1 (mesh_robot ''arm.ply'')" by code_simp
  have l: "(''L1'', \<lparr>visuals = [mesh_visual ''arm.ply'']\<rparr>) \<in> set (link_map (mesh_robot ''arm.ply''))"
    by (simp add: mesh_robot_def)
  have v: "mesh_visual ''arm.ply'' \<in> set (visuals \<lparr>visuals = [mesh_visual ''arm.ply'']\<rparr>)"
    by simp
  from unsupported_geometry_aborts_load[OF l v u, of demo_heap True False False] a u
  show ?thesis by blast
qed

section \<open>Sub-mesh poses\<close>

text \<open>
  \<^bold>\<open>C7\<close> (sub-mesh pose). The claim is that every sub-mesh entry gets the link pose composed with
  the visual's origin and with the sub-mesh's own local transform, for every multi-geometry
  format. With link pose \<open>translation 1 0 0\<close>, origin \<open>translation 4 5 6\<close> and a sub-mesh at
  \<open>translation 0 0 5\<close>, the OBJ scene gets \<open>translation 5 5 11\<close> as claimed, but the same scene
  loaded from a DAE file gets \<open>translation 5 5 6\<close>: line 112 computes the composed pose and line
  113 appends \<^verbatim>\<open>visual_pose\<close> instead.
\<close>

theorem dae_submesh_pose_dropped:
  "emitted_poses (load_urdf_with_yourdfpy exact_env (mesh_robot ''arm.dae'') demo_heap True False False)
     = [((''B'', 0), translation 5 5 6)] \<and>
   emitted_poses (load_urdf_with_yourdfpy exact_env (mesh_robot ''arm.obj'') demo_heap True False False)
     = [((''B'', 0), translation 5 5 11)] \<and>
   mat_mul (mat_mul (translation 1 0 0) (translation 4 5 6)) (translation 0 0 5) = translation 5 5 11"
  by code_simp

section \<open>The input tree after the call\<close>

text \<open>
  \<^bold>\<open>C10\<close> (input not mutated). The claim is that no visual's origin changes. With collapsing off,
  line 61 binds \<^verbatim>\<open>visual_pose\<close> to the origin array itself and line 139 writes the rotated block
  into it: the origin of the cylinder, \<open>translation 1 2 3\<close> before the call, holds the rotated
  matrix after it. With collapsing on, line 77 makes a new array first and the origin is kept.
\<close>

theorem cylinder_origin_overwritten:
  "cells demo_heap 0 = translation 1 2 3 \<and>
   cell_after (load_urdf_with_yourdfpy exact_env cylinder_robot demo_heap False False False) 0
     = Some [[1, 0, 0, 1], [0, 0, - 1, 2], [0, 1, 0, 3], [0, 0, 0, 1]] \<and>
   cell_after (load_urdf_with_yourdfpy exact_env cylinder_robot demo_heap True False False) 0
     = Some (translation 1 2 3)"
  by code_simp

section \<open>Collapsing disabled\<close>

lemma load_flat_append:
  "load_flat E cfj cap mm m (xs @ ys) st =
     (case load_flat E cfj cap mm m xs st of Inl e \<Rightarrow> Inl e | Inr st' \<Rightarrow> load_flat E cfj cap mm m ys st')"
  by (induction xs arbitrary: st) (auto split: sum.splits)

lemma load_visuals_flat:
  "load_visuals E cfj cap mm m ln vs st = load_flat E cfj cap mm m (map (Pair ln) vs) st"
  by (induction vs arbitrary: st) (auto split: sum.splits)

lemma load_links_flat:
  "load_links E cfj cap mm m ls st
     = load_flat E cfj cap mm m (concat (map (\<lambda>l. map (Pair (fst l)) (visuals (snd l))) ls)) st"
proof (induction ls arbitrary: st)
  case Nil
  then show ?case by simp
next
  case (Cons l ls)
  obtain ln li where l: "l = (ln, li)" by (cases l)
  show ?case using Cons.IH
    by (simp add: l load_flat_append load_visuals_flat split: sum.splits)
qed

lemma alloc_props:
  "alloc h v = (h', a) \<Longrightarrow>
     a = next_free h \<and> next_free h' = Suc (next_free h) \<and> cells h' a = v \<and>
     (\<forall>x. x \<noteq> next_free h \<longrightarrow> cells h' x = cells h x)"
  by (auto simp: alloc_def)

lemma obj_scene_loop_poses:
  "obj_scene_loop E sc s c vp items h = Inr (h', gs, ms, ps) \<Longrightarrow> vp < next_free h \<Longrightarrow>
     length gs = length ps \<and> length ms = length ps \<and> next_free h \<le> next_free h' \<and>
     (\<forall>a < next_free h. cells h' a = cells h a) \<and>
     (\<forall>p \<in> set ps. next_free h \<le> p \<and> p < next_free h') \<and>
     list_all2 pose_agrees (map (cells h') ps)
       (List.map_filter (\<lambda>g. map_option (\<lambda>t. Exactly (matmul E (cells h vp) t)) (obj_local sc (fst g))) items)"
proof (induction items arbitrary: h h' gs ms ps)
  case Nil
  then show ?case by (simp add: map_filter_simps)
next
  case (Cons it items)
  obtain name sg where it: "it = (name, sg)" by (cases it)
  from Cons.prems(1) it obtain node where node: "map_of (scene_graph sc) name = Some node"
    by (auto split: option.splits)
  obtain h1 lp where al: "alloc h (matmul E (cells h vp) (fst node)) = (h1, lp)"
    by (cases "alloc h (matmul E (cells h vp) (fst node))")
  from Cons.prems(1) it node al obtain gs' ms' ps' where
    rec: "obj_scene_loop E sc s c vp items h1 = Inr (h', gs', ms', ps')"
    and out: "gs = TriangularMeshGeometry sg s # gs'" "ms = Some (TrimeshMaterial sg c) # ms'" "ps = lp # ps'"
    by (auto split: sum.splits)
  note a = alloc_props[OF al]
  from a Cons.prems(2) have vp1: "vp < next_free h1" "cells h1 vp = cells h vp" by auto
  from Cons.IH[OF rec vp1(1)] have IH:
    "length gs' = length ps'" "length ms' = length ps'" "next_free h1 \<le> next_free h'"
    "\<forall>a < next_free h1. cells h' a = cells h1 a"
    "\<forall>p \<in> set ps'. next_free h1 \<le> p \<and> p < next_free h'"
    "list_all2 pose_agrees (map (cells h') ps')
       (List.map_filter (\<lambda>g. map_option (\<lambda>t. Exactly (matmul E (cells h1 vp) t)) (obj_local sc (fst g))) items)"
    by simp_all
  have "cells h' lp = matmul E (cells h vp) (fst node)" using a IH(4) by (metis lessI)
  moreover have "\<forall>a < next_free h. cells h' a = cells h a" using a IH(4) by simp
  moreover have "\<forall>p \<in> set ps. next_free h \<le> p \<and> p < next_free h'"
    using out(3) a IH(3,5) by auto
  ultimately show ?case using out IH a vp1 it node
    by (simp add: map_filter_simps obj_local_def)
qed

lemma glb_scene_loop_poses:
  "glb_scene_loop E sc s c vp items h = Inr (h', gs, ms, ps) \<Longrightarrow> vp < next_free h \<Longrightarrow>
     length gs = length ps \<and> length ms = length ps \<and> next_free h \<le> next_free h' \<and>
     (\<forall>a < next_free h. cells h' a = cells h a) \<and>
     (\<forall>p \<in> set ps. next_free h \<le> p \<and> p < next_free h') \<and>
     list_all2 pose_agrees (map (cells h') ps)
       (List.map_filter (\<lambda>g. map_option (\<lambda>t. Exactly (matmul E (cells h vp) t)) (glb_local sc (fst g))) items)"
proof (induction items arbitrary: h h' gs ms ps)
  case Nil
  then show ?case by (simp add: map_filter_simps)
next
  case (Cons it items)
  obtain name sg where it: "it = (name, sg)" by (cases it)
  from Cons.prems(1) it obtain node_name node where
    node: "geom_name_map sc (Some name) = Some node_name" "map_of (scene_graph sc) node_name = Some node"
    by (auto split: option.splits)
  obtain h1 lp where al: "alloc h (matmul E (cells h vp) (fst node)) = (h1, lp)"
    by (cases "alloc h (matmul E (cells h vp) (fst node))")
  from Cons.prems(1) it node al obtain gs' ms' ps' where
    rec: "glb_scene_loop E sc s c vp items h1 = Inr (h', gs', ms', ps')"
    and out: "gs = TriangularMeshGeometry sg s # gs'" "ms = Some (TrimeshMaterial sg c) # ms'" "ps = lp # ps'"
    by (auto split: sum.splits)
  note a = alloc_props[OF al]
  from a Cons.prems(2) have vp1: "vp < next_free h1" "cells h1 vp = cells h vp" by auto
  from Cons.IH[OF rec vp1(1)] have IH:
    "length gs' = length ps'" "length ms' = length ps'" "next_free h1 \<le> next_free h'"
    "\<forall>a < next_free h1. cells h' a = cells h1 a"
    "\<forall>p \<in> set ps'. next_free h1 \<le> p \<and> p < next_free h'"
    "list_all2 pose_agrees (map (cells h') ps')
       (List.map_filter (\<lambda>g. map_option (\<lambda>t. Exactly (matmul E (cells h1 vp) t)) (glb_local sc (fst g))) items)"
    by simp_all
  have "cells h' lp = matmul E (cells h vp) (fst node)" using a IH(4) by (metis lessI)
  moreover have "\<forall>a < next_free h. cells h' a = cells h a" using a IH(4) by simp
  moreover have "\<forall>p \<in> set ps. next_free h \<le> p \<and> p < next_free h'"
    using out(3) a IH(3,5) by auto
  ultimately show ?case using out IH a vp1 it node
    by (simp add: map_filter_simps glb_local_def)
qed

lemma dae_scene_loop_poses:
  "dae_scene_loop E sc f c vp items h = Inr (h', gs, ms, ps) \<Longrightarrow> vp < next_free h \<Longrightarrow>
     length gs = length ps \<and> length ms = length ps \<and> next_free h \<le> next_free h' \<and>
     (\<forall>a < next_free h. cells h' a = cells h a) \<and>
     ps = map (\<lambda>g. vp) items"
proof (induction items arbitrary: h h' gs ms ps)
  case Nil
  then show ?case by simp
next
  case (Cons it items)
  obtain name sg where it: "it = (name, sg)" by (cases it)
  from Cons.prems(1) it obtain node where node: "map_of (scene_graph sc) name = Some node"
    by (auto split: option.splits)
  obtain h1 lp where al: "alloc h (matmul E (cells h vp) (fst node)) = (h1, lp)"
    by (cases "alloc h (matmul E (cells h vp) (fst node))")
  from Cons.prems(1) it node al obtain gs' ms' ps' where
    rec: "dae_scene_loop E sc f c vp items h1 = Inr (h', gs', ms', ps')"
    and out: "gs = DaeMeshGeometry f # gs'" "ms = Some (TrimeshMaterial sg c) # ms'" "ps = vp # ps'"
    by (auto split: sum.splits)
  note a = alloc_props[OF al]
  from a Cons.prems(2) have vp1: "vp < next_free h1" by auto
  from Cons.IH[OF rec vp1] have IH:
    "length gs' = length ps'" "length ms' = length ps'" "next_free h1 \<le> next_free h'"
    "\<forall>a < next_free h1. cells h' a = cells h1 a"
    "ps' = map (\<lambda>g. vp) items"
    by simp_all
  have "\<forall>a < next_free h. cells h' a = cells h a" using a IH(4) by simp
  then show ?case using out IH a by simp
qed

lemma mesh_entries_ok:
  assumes m: "mesh geom = Some msh" and r: "mesh_entries E msh c vp h = Inr ents"
    and vp: "vp < next_free h"
  shows "entries_ok E geom vp h ents"
proof -
  obtain h' gs ms ps where ents: "ents = (h', gs, ms, ps)" by (cases ents)
  let ?f = "filename_handler E (filename msh)"
  let ?s = "case scale msh of Some s \<Rightarrow> s | None \<Rightarrow> unit_scale E"
  consider (obj) "endswith (lower ?f) ''obj''"
    | (dae) "\<not> endswith (lower ?f) ''obj''" "endswith (lower ?f) ''dae''"
    | (stl) "\<not> endswith (lower ?f) ''obj''" "\<not> endswith (lower ?f) ''dae''" "endswith (lower ?f) ''stl''"
    | (glb) "\<not> endswith (lower ?f) ''obj''" "\<not> endswith (lower ?f) ''dae''" "\<not> endswith (lower ?f) ''stl''"
        "endswith (lower ?f) ''glb''"
    | (none) "\<not> endswith (lower ?f) ''obj''" "\<not> endswith (lower ?f) ''dae''" "\<not> endswith (lower ?f) ''stl''"
        "\<not> endswith (lower ?f) ''glb''"
    by blast
  then show ?thesis
  proof cases
    case obj
    show ?thesis
    proof (cases "trimesh_load E ?f")
      case (Inl e)
      with r obj show ?thesis by (simp add: mesh_entries_def Let_def)
    next
      case (Inr ld)
      show ?thesis
      proof (cases ld)
        case (Scene sc)
        with r obj Inr ents have
          "obj_scene_loop E sc ?s c vp (scene_geometry sc) h = Inr (h', gs, ms, ps)"
          by (simp add: mesh_entries_def Let_def)
        from obj_scene_loop_poses[OF this vp] show ?thesis
          using m obj Inr Scene ents
          by (auto simp: entries_ok_def local_poses_def Let_def)
      next
        case (Trimesh t)
        with r obj Inr ents m show ?thesis
          by (auto simp: mesh_entries_def entries_ok_def local_poses_def Let_def)
      qed
    qed
  next
    case dae
    show ?thesis
    proof (cases "trimesh_load E ?f")
      case (Inl e)
      with r dae show ?thesis by (simp add: mesh_entries_def Let_def)
    next
      case (Inr ld)
      show ?thesis
      proof (cases ld)
        case (Scene sc)
        with r dae Inr ents have
          "dae_scene_loop E sc ?f c vp (scene_geometry sc) h = Inr (h', gs, ms, ps)"
          by (simp add: mesh_entries_def Let_def)
        from dae_scene_loop_poses[OF this vp] show ?thesis
          using m dae Inr Scene ents vp
          by (auto simp: entries_ok_def local_poses_def Let_def list_all2_map1 list_all2_map2 list_all2_same)
      next
        case (Trimesh t)
        with r dae Inr show ?thesis by (simp add: mesh_entries_def Let_def)
      qed
    qed
  next
    case stl
    show ?thesis
    proof (cases "trimesh_load E ?f")
      case (Inl e)
      with r stl show ?thesis by (simp add: mesh_entries_def Let_def)
    next
      case (Inr ld)
      with r stl ents m show ?thesis
        by (cases ld) (auto simp: mesh_entries_def entries_ok_def local_poses_def Let_def)
    qed
  next
    case glb
    show ?thesis
    proof (cases "trimesh_load_scene E ?f")
      case (Inl e)
      with r glb show ?thesis by (simp add: mesh_entries_def Let_def)
    next
      case (Inr sc)
      with r glb ents have
        "glb_scene_loop E sc ?s c vp (scene_geometry sc) h = Inr (h', gs, ms, ps)"
        by (simp add: mesh_entries_def Let_def)
      from glb_scene_loop_poses[OF this vp] show ?thesis
        using m glb Inr ents
        by (auto simp: entries_ok_def local_poses_def Let_def)
    qed
  next
    case none
    with r show ?thesis by (simp add: mesh_entries_def Let_def)
  qed
qed

lemma primitive_entries_ok:
  assumes m: "mesh geom = None" and r: "primitive_entries E cap geom c vp h = Inr ents"
  shows "entries_ok E geom vp h ents"
  using assms
  by (auto simp: primitive_entries_def entries_ok_def local_poses_def Let_def
           split: option.splits if_splits)

lemma geometry_entries_ok:
  assumes "geometry_entries E cap geom c vp h = Inr ents" "vp < next_free h"
  shows "entries_ok E geom vp h ents"
proof (cases "mesh geom")
  case None
  with assms(1) have "primitive_entries E cap geom c vp h = Inr ents"
    by (simp add: geometry_entries_def)
  from primitive_entries_ok[OF None this] show ?thesis .
next
  case (Some msh)
  with assms(1) have "mesh_entries E msh c vp h = Inr ents"
    by (simp add: geometry_entries_def)
  from mesh_entries_ok[OF Some this assms(2)] show ?thesis .
qed

lemma emit_link_addrs:
  "emit n g es st = (st', g') \<Longrightarrow>
     link_addrs (offline_pose_dict st') = link_addrs (offline_pose_dict st) @ map (\<lambda>e. (n, snd (snd e))) es"
  by (induction n g es st rule: emit.induct) (auto simp: link_addrs_def)

lemma zip3_poses: "length gs = length ps \<Longrightarrow> length ms = length ps \<Longrightarrow>
   map (\<lambda>e. (n, snd (snd e))) (zip gs (zip ms ps)) = map (Pair n) ps"
proof -
  assume l: "length gs = length ps" "length ms = length ps"
  have "map (\<lambda>e. snd (snd e)) (zip gs (zip ms ps)) = ps"
    using l by (simp flip: map_map[unfolded comp_def])
  then have "map (Pair n) (map (\<lambda>e. snd (snd e)) (zip gs (zip ms ps))) = map (Pair n) ps" by simp
  then show ?thesis by (simp add: comp_def)
qed

lemma count_and_emit_addrs:
  assumes "length gs = length ps" "length ms = length ps"
  shows "store (count_and_emit n (h, gs, ms, ps) st) = h \<and>
         link_addrs (offline_pose_dict (count_and_emit n (h, gs, ms, ps) st))
           = link_addrs (offline_pose_dict st) @ map (Pair n) ps"
proof -
  let ?g = "(case link_mesh_count st n of None \<Rightarrow> 0 | Some c \<Rightarrow> c + 1)"
  obtain st' g' where em: "emit n ?g (zip gs (zip ms ps)) st = (st', g')"
    by (cases "emit n ?g (zip gs (zip ms ps)) st")
  from emit_link_addrs[OF em] zip3_poses[OF assms] em show ?thesis
    by (simp add: count_and_emit_def)
qed

lemma load_visual_uncollapsed:
  assumes r: "load_visual E False cap mm m ln v st = Inr st'"
    and al: "\<forall>a. visual_origin v = Some a \<longrightarrow> a < next_free (store st)"
  shows "\<exists>ps. next_free (store st) \<le> next_free (store st') \<and>
          (\<forall>x < next_free (store st). visual_origin v \<noteq> Some x \<longrightarrow> cells (store st') x = cells (store st) x) \<and>
          link_addrs (offline_pose_dict st') = link_addrs (offline_pose_dict st) @ map (Pair ln) ps \<and>
          (\<forall>p \<in> set ps. visual_origin v = Some p \<or> (next_free (store st) \<le> p \<and> p < next_free (store st'))) \<and>
          list_all2 pose_agrees (map (cells (store st')) ps)
            (local_poses E (visual_geometry v) (own_origin E (store st) v))"
proof -
  obtain h1 vp where hv: "initial_visual_pose E v (store st) = (h1, vp)"
    by (cases "initial_visual_pose E v (store st)")
  from r hv obtain c ents where
    ge: "geometry_entries E cap (visual_geometry v) c vp h1 = Inr ents"
    and st': "st' = count_and_emit ln ents st"
    by (auto simp: load_visual_def Let_def collapsed_visual_pose_def meshcat_link_name_of_def
             split: sum.splits)
  obtain h' gs ms ps where ents: "ents = (h', gs, ms, ps)" by (cases ents)
  have h1: "vp < next_free h1" "next_free (store st) \<le> next_free h1"
    "cells h1 vp = own_origin E (store st) v"
    "\<forall>x < next_free (store st). cells h1 x = cells (store st) x"
    "visual_origin v = Some vp \<or> (visual_origin v = None \<and> next_free (store st) \<le> vp)"
    using hv al
    by (auto simp: initial_visual_pose_def own_origin_def alloc_def split: option.splits)
  from geometry_entries_ok[OF ge h1(1)] ents have ok:
    "length gs = length ps" "length ms = length ps" "next_free h1 \<le> next_free h'"
    "\<forall>a < next_free h1. a \<noteq> vp \<longrightarrow> cells h' a = cells h1 a"
    "\<forall>p \<in> set ps. p = vp \<or> (next_free h1 \<le> p \<and> p < next_free h')"
    "list_all2 pose_agrees (map (cells h') ps) (local_poses E (visual_geometry v) (cells h1 vp))"
    by (simp_all add: entries_ok_def)
  from count_and_emit_addrs[OF ok(1,2), of ln h' st] st' ents have ce:
    "store st' = h'"
    "link_addrs (offline_pose_dict st') = link_addrs (offline_pose_dict st) @ map (Pair ln) ps"
    by simp_all
  have "next_free (store st) \<le> next_free (store st')" using ce(1) ok(3) h1(2) by simp
  moreover have "\<forall>x < next_free (store st). visual_origin v \<noteq> Some x \<longrightarrow> cells (store st') x = cells (store st) x"
  proof (intro allI impI)
    fix x assume x: "x < next_free (store st)" "visual_origin v \<noteq> Some x"
    with h1(5) have "x \<noteq> vp" by auto
    moreover have "x < next_free h1" using x(1) h1(2) by simp
    ultimately have "cells h' x = cells h1 x" using ok(4) by blast
    with h1(4) x(1) ce(1) show "cells (store st') x = cells (store st) x" by simp
  qed
  moreover have "\<forall>p \<in> set ps. visual_origin v = Some p \<or> (next_free (store st) \<le> p \<and> p < next_free (store st'))"
  proof
    fix p assume "p \<in> set ps"
    with ok(5) consider "p = vp" | "next_free h1 \<le> p" "p < next_free h'" by blast
    then show "visual_origin v = Some p \<or> (next_free (store st) \<le> p \<and> p < next_free (store st'))"
    proof cases
      case 1
      with h1(1,5) ok(3) ce(1) show ?thesis by auto
    next
      case 2
      with h1(2) ce(1) show ?thesis by simp
    qed
  qed
  moreover have "list_all2 pose_agrees (map (cells (store st')) ps)
      (local_poses E (visual_geometry v) (own_origin E (store st) v))"
    using ok(6) h1(3) ce(1) by simp
  ultimately show ?thesis using ce(2) by blast
qed

lemma origin_addrs_Cons:
  "origin_addrs (x # rest) =
     (case visual_origin (snd x) of None \<Rightarrow> origin_addrs rest | Some a \<Rightarrow> a # origin_addrs rest)"
  by (simp add: origin_addrs_def map_filter_simps split: option.splits)

lemma origin_addrs_mem:
  "x \<in> set xs \<Longrightarrow> visual_origin (snd x) = Some a \<Longrightarrow> a \<in> set (origin_addrs xs)"
  by (induction xs) (auto simp: origin_addrs_Cons split: option.splits)

lemma expected_poses_cong:
  assumes "\<forall>a \<in> set (origin_addrs xs). cells h1 a = cells h a"
  shows "expected_poses E h1 xs = expected_poses E h xs"
proof -
  have "own_origin E h1 (snd x) = own_origin E h (snd x)" if "x \<in> set xs" for x
    using assms that origin_addrs_mem[OF that]
    by (auto simp: own_origin_def split: option.splits)
  then show ?thesis unfolding expected_poses_def
    by (intro arg_cong[where f = concat] map_cong) simp_all
qed

lemma load_flat_uncollapsed:
  "load_flat E False cap mm m xs st = Inr st' \<Longrightarrow>
   distinct (origin_addrs xs) \<Longrightarrow> \<forall>a \<in> set (origin_addrs xs). a < next_free (store st) \<Longrightarrow>
   \<forall>y \<in> set (link_addrs (offline_pose_dict st)).
      snd y < next_free (store st) \<and> snd y \<notin> set (origin_addrs xs) \<Longrightarrow>
   \<exists>la. link_addrs (offline_pose_dict st') = link_addrs (offline_pose_dict st) @ la \<and>
     list_all2 entry_agrees (map (\<lambda>y. (fst y, cells (store st') (snd y))) la)
       (expected_poses E (store st) xs) \<and>
     (\<forall>y \<in> set (link_addrs (offline_pose_dict st)). cells (store st') (snd y) = cells (store st) (snd y))"
proof (induction xs arbitrary: st)
  case Nil
  then show ?case by (simp add: expected_poses_def)
next
  case (Cons x rest)
  let ?ln = "fst x" and ?v = "snd x"
  let ?old = "link_addrs (offline_pose_dict st)"
  from Cons.prems(1) obtain st1 where
    st1: "load_visual E False cap mm m ?ln ?v st = Inr st1"
      "load_flat E False cap mm m rest st1 = Inr st'"
    by (auto split: sum.splits)
  have sub: "set (origin_addrs rest) \<subseteq> set (origin_addrs (x # rest))"
    by (auto simp: origin_addrs_Cons split: option.splits)
  have own: "\<forall>a. visual_origin ?v = Some a \<longrightarrow>
      a < next_free (store st) \<and> a \<notin> set (origin_addrs rest) \<and> a \<in> set (origin_addrs (x # rest))"
    using Cons.prems(2,3) by (auto simp: origin_addrs_Cons)
  from load_visual_uncollapsed[OF st1(1)] own obtain ps where
    v: "next_free (store st) \<le> next_free (store st1)"
      "\<forall>a < next_free (store st). visual_origin ?v \<noteq> Some a \<longrightarrow> cells (store st1) a = cells (store st) a"
      "link_addrs (offline_pose_dict st1) = ?old @ map (Pair ?ln) ps"
      "\<forall>p \<in> set ps. visual_origin ?v = Some p \<or> (next_free (store st) \<le> p \<and> p < next_free (store st1))"
      "list_all2 pose_agrees (map (cells (store st1)) ps)
         (local_poses E (visual_geometry ?v) (own_origin E (store st) ?v))"
    by blast
  have d: "distinct (origin_addrs rest)"
    using Cons.prems(2) by (auto simp: origin_addrs_Cons split: option.splits)
  have b: "\<forall>a \<in> set (origin_addrs rest). a < next_free (store st1)"
    using Cons.prems(3) sub v(1) by fastforce
  have restk: "\<forall>a \<in> set (origin_addrs rest). cells (store st1) a = cells (store st) a"
  proof
    fix a assume a: "a \<in> set (origin_addrs rest)"
    with Cons.prems(3) sub have "a < next_free (store st)" by blast
    moreover have "visual_origin ?v \<noteq> Some a" using own a by auto
    ultimately show "cells (store st1) a = cells (store st) a" using v(2) by blast
  qed
  have logged: "\<forall>y \<in> set (link_addrs (offline_pose_dict st1)).
      snd y < next_free (store st1) \<and> snd y \<notin> set (origin_addrs rest)"
  proof
    fix y assume "y \<in> set (link_addrs (offline_pose_dict st1))"
    then consider "y \<in> set ?old" | p where "p \<in> set ps" "y = (?ln, p)"
      unfolding v(3) by auto
    then show "snd y < next_free (store st1) \<and> snd y \<notin> set (origin_addrs rest)"
    proof cases
      case 1
      with Cons.prems(4) sub v(1) show ?thesis by fastforce
    next
      case 2
      from v(4) 2(1) consider "visual_origin ?v = Some p"
        | "next_free (store st) \<le> p" "p < next_free (store st1)" by blast
      then show ?thesis
      proof cases
        case 1
        with own v(1) 2(2) show ?thesis by fastforce
      next
        case 2
        have "p \<notin> set (origin_addrs rest)"
          using 2(1) Cons.prems(3) sub by fastforce
        with 2 \<open>y = (?ln, p)\<close> show ?thesis by simp
      qed
    qed
  qed
  from Cons.IH[OF st1(2) d b logged] obtain la2 where
    ih: "link_addrs (offline_pose_dict st') = link_addrs (offline_pose_dict st1) @ la2"
      "list_all2 entry_agrees (map (\<lambda>y. (fst y, cells (store st') (snd y))) la2)
         (expected_poses E (store st1) rest)"
      "\<forall>y \<in> set (link_addrs (offline_pose_dict st1)). cells (store st') (snd y) = cells (store st1) (snd y)"
    by blast
  have keep_new: "map (cells (store st')) ps = map (cells (store st1)) ps"
  proof (rule map_cong[OF refl])
    fix p assume "p \<in> set ps"
    then have "(?ln, p) \<in> set (link_addrs (offline_pose_dict st1))" unfolding v(3) by simp
    with ih(3) show "cells (store st') p = cells (store st1) p" by fastforce
  qed
  have new_vals: "list_all2 entry_agrees
      (map (\<lambda>y. (fst y, cells (store st') (snd y))) (map (Pair ?ln) ps))
      (map (Pair ?ln) (local_poses E (visual_geometry ?v) (own_origin E (store st) ?v)))"
  proof -
    have "list_all2 pose_agrees (map (cells (store st')) ps)
            (local_poses E (visual_geometry ?v) (own_origin E (store st) ?v))"
      using v(5) unfolding keep_new .
    then show ?thesis
      by (simp add: list_all2_map1 list_all2_map2 entry_agrees_def)
  qed
  have keep_old: "\<forall>y \<in> set ?old. cells (store st') (snd y) = cells (store st) (snd y)"
  proof
    fix y assume y: "y \<in> set ?old"
    then have "cells (store st') (snd y) = cells (store st1) (snd y)"
      using ih(3) unfolding v(3) by simp
    moreover have "snd y < next_free (store st)" "visual_origin ?v \<noteq> Some (snd y)"
      using Cons.prems(4) y own by auto
    ultimately show "cells (store st') (snd y) = cells (store st) (snd y)" using v(2) by simp
  qed
  have exp: "expected_poses E (store st) (x # rest)
      = map (Pair ?ln) (local_poses E (visual_geometry ?v) (own_origin E (store st) ?v))
        @ expected_poses E (store st) rest"
    by (simp add: expected_poses_def)
  have "link_addrs (offline_pose_dict st') = ?old @ (map (Pair ?ln) ps @ la2)"
    using ih(1) v(3) by simp
  moreover have "list_all2 entry_agrees
      (map (\<lambda>y. (fst y, cells (store st') (snd y))) (map (Pair ?ln) ps @ la2))
      (expected_poses E (store st) (x # rest))"
    using new_vals ih(2) expected_poses_cong[OF restk, of E] exp
    by (simp add: list_all2_appendI)
  ultimately show ?case using keep_old by blast
qed

text \<open>
  \<^bold>\<open>C8\<close> as stated says that with collapsing off the effective pose of every visual is just its
  own origin. A cylinder is a counterexample: its entry has the origin with the axis correction
  of line 139 applied.
\<close>

theorem uncollapsed_pose_counterexample:
  "emitted_poses (load_urdf_with_yourdfpy exact_env cylinder_robot demo_heap False False False)
     = [((''B'', 0), [[1, 0, 0, 1], [0, 0, - 1, 2], [0, 1, 0, 3], [0, 0, 0, 1]])] \<and>
   own_origin exact_env demo_heap cylinder_visual = [[1, 0, 0, 1], [0, 1, 0, 2], [0, 0, 1, 3], [0, 0, 0, 1]]"
  by code_simp

text \<open>
  \<^bold>\<open>C8\<close> as amended. With collapsing off, and every visual owning its origin array, the entries of
  the returned resource are, in order, those of the visuals of the links, each stored under the
  name of the link that owns the visual. The entry of a sphere, box or single mesh has the
  visual's own origin as pose, the entry of a cylinder or capsule that origin with the axis
  correction, each sub-mesh entry of an OBJ scene or GLB file that origin composed with the
  sub-mesh's local transform: no link pose is composed in. The pose of the sub-mesh entries of
  a DAE scene is left open.
\<close>

theorem uncollapsed_effective_poses:
  assumes "load_urdf_with_yourdfpy E robot h False cap umm = Some (Inr (h', res))"
    and "origins_separate h (link_visuals robot)"
  shows "list_all2 entry_agrees (effective_poses h' (pose_data res))
           (expected_poses E h (link_visuals robot))"
proof -
  let ?mm = "if \<not> umm then material_map robot else []"
  from assms(1) obtain st where
    st: "load_links E False cap ?mm (init_maps E robot) (link_map robot) (initial_state h) = Inr st"
    and res: "h' = store st" "pose_data res = offline_pose_dict st"
    by (auto simp: load_urdf_with_yourdfpy_def collapse_links_def Let_def split: sum.splits)
  from st have fl: "load_flat E False cap ?mm (init_maps E robot) (link_visuals robot) (initial_state h) = Inr st"
    by (simp add: load_links_flat link_visuals_def)
  have i: "store (initial_state h :: ('a, 'b) load_state) = h"
    "link_addrs (offline_pose_dict (initial_state h :: ('a, 'b) load_state)) = []"
    by (simp_all add: initial_state_def link_addrs_def)
  from assms(2) have sep: "distinct (origin_addrs (link_visuals robot))"
    "\<forall>a \<in> set (origin_addrs (link_visuals robot)). a < next_free (store (initial_state h :: ('a, 'b) load_state))"
    unfolding i by (simp_all add: origins_separate_def origin_addrs_def)
  from load_flat_uncollapsed[OF fl sep] i obtain la where
    la: "link_addrs (offline_pose_dict st) = la"
    "list_all2 entry_agrees (map (\<lambda>y. (fst y, cells (store st) (snd y))) la)
       (expected_poses E h (link_visuals robot))"
    by auto
  have "effective_poses (store st) (offline_pose_dict st)
        = map (\<lambda>y. (fst y, cells (store st) (snd y))) (link_addrs (offline_pose_dict st))"
    by (simp add: effective_poses_def link_addrs_def comp_def)
  then show ?thesis using res la by simp
qed

theorem uncollapsed_effective_poses_witness:
  "origins_separate demo_heap (link_visuals scenario_A) \<and>
   (\<exists>h' res. load_urdf_with_yourdfpy exact_env scenario_A demo_heap False False False = Some (Inr (h', res)) \<and>
      list_all2 entry_agrees (effective_poses h' (pose_data res))
        (expected_poses exact_env demo_heap (link_visuals scenario_A)))"
proof -
  have s: "origins_separate demo_heap (link_visuals scenario_A)" by code_simp
  have "case load_urdf_with_yourdfpy exact_env scenario_A demo_heap False False False of
          Some (Inr r) \<Rightarrow> True | _ \<Rightarrow> False"
    by code_simp
  then obtain h' res where
    r: "load_urdf_with_yourdfpy exact_env scenario_A demo_heap False False False = Some (Inr (h', res))"
    by (auto split: option.splits sum.splits)
  from uncollapsed_effective_poses[OF r s] r s show ?thesis by blast
qed

end
